theory Spec2Isabelle
  imports Complex_Main "HOL-Library.Signed_Division" "HOL-Library.Monad_Syntax"
begin

section \<open>The d2q9-bgk lattice Boltzmann code: model\<close>

text \<open>
  The definitions below follow \<^verbatim>\<open>d2q9-bgk.c\<close> function by function. A C \<^verbatim>\<open>int\<close>
  is an \<^typ>\<open>int\<close>: the integers the program computes are row and rank numbers below
  twice the number of rows or of processes, and cell indices below the number of cells,
  which stay in the 32-bit range for every grid the program can allocate. The remainder
  \<^verbatim>\<open>%\<close> is C's, which truncates towards zero.

  A \<^verbatim>\<open>float\<close> is a \<^typ>\<open>real\<close>: the arithmetic is exact, without rounding and
  without overflow. A C division by a zero \<^verbatim>\<open>float\<close> does not trap; its quotient
  is an infinity or a NaN, which is no real number. The model writes this case out: such
  a quotient is \<open>None\<close>, and so is every result computed from it.

  The arrays \<^verbatim>\<open>cells\<close>, \<^verbatim>\<open>tmp_cells\<close> and \<^verbatim>\<open>obstacles\<close> are stores: maps
  from the C index to the element. The cells that \<^verbatim>\<open>initialise\<close> allocates are
  those with an index \<open>ii + jj * nx\<close> for \<open>0 \<le> ii < nx\<close> and \<open>0 \<le> jj < ny\<close>;
  the statements below name the indices they are about.
\<close>

subsection \<open>Integer remainder\<close>

text \<open>
  \<^verbatim>\<open>a % b\<close> for a divisor that is not zero; with a zero divisor the C program has no
  defined behaviour. The program takes remainders by the number of processes, of rows and
  of columns only, and the statements below are about positive numbers of them wherever
  a remainder is evaluated.
\<close>

definition c_rem :: "int \<Rightarrow> int \<Rightarrow> int" where
  "c_rem a b = a smod b"

subsection \<open>The domain of a process (\<^verbatim>\<open>main\<close>, the loop over \<^verbatim>\<open>params.ny\<close>)\<close>

text \<open>
  One pass of the loop body for row \<open>i\<close>: \<^verbatim>\<open>domain_size\<close> counts the rows with
  \<^verbatim>\<open>i % size == rank\<close>, \<^verbatim>\<open>domain_start\<close> those with \<^verbatim>\<open>i % size < rank\<close>.
  The state is the pair \<open>(domain_start, domain_size)\<close>; \<open>sz\<close> is the variable
  \<^verbatim>\<open>size\<close> of \<^verbatim>\<open>main\<close>.
\<close>

definition domain_step :: "int \<Rightarrow> int \<Rightarrow> int \<Rightarrow> int \<times> int \<Rightarrow> int \<times> int" where
  "domain_step sz rank i = (\<lambda>(domain_start, domain_size).
     (if c_rem i sz < rank then domain_start + 1 else domain_start,
      if c_rem i sz = rank then domain_size + 1 else domain_size))"

definition domain :: "int \<Rightarrow> int \<Rightarrow> int \<Rightarrow> int \<times> int" where
  "domain rows sz rank = fold (domain_step sz rank) [0..rows - 1] (0, 0)"

text \<open>
  The rows the time-step loops of \<^verbatim>\<open>main\<close> visit:
  \<^verbatim>\<open>for (jj = domain_start; jj < domain_start + domain_size; ++jj)\<close>.
\<close>

definition owned_rows :: "int \<Rightarrow> int \<Rightarrow> int \<Rightarrow> int list" where
  "owned_rows rows sz rank =
     (let (domain_start, domain_size) = domain rows sz rank
      in [domain_start..domain_start + domain_size - 1])"

subsection \<open>The halo exchange (\<^verbatim>\<open>halo_exchange\<close>, \<^verbatim>\<open>SendRecv\<close>)\<close>

text \<open>
  The arguments \<^verbatim>\<open>to\<close>, \<^verbatim>\<open>from\<close>, \<^verbatim>\<open>sendRow\<close>, \<^verbatim>\<open>receiveRow\<close> and
  \<^verbatim>\<open>id\<close> of one call of \<^verbatim>\<open>SendRecv\<close>.
\<close>

record sendrecv_call =
  sr_to :: int
  sr_from :: int
  sr_sendRow :: int
  sr_receiveRow :: int
  sr_id :: int

text \<open>
  The two calls \<^verbatim>\<open>halo_exchange\<close> makes, in order, when \<^verbatim>\<open>size != 1\<close>, and none
  otherwise.
\<close>

definition halo_exchange_calls ::
  "int \<Rightarrow> int \<Rightarrow> int \<Rightarrow> int \<Rightarrow> int \<Rightarrow> sendrecv_call list" where
  "halo_exchange_calls height domain_start domain_size rank sz =
     (if sz \<noteq> 1 then
        [\<lparr>sr_to = c_rem ((sz + rank) - 1) sz,
          sr_from = c_rem ((sz + rank) + 1) sz,
          sr_sendRow = domain_start,
          sr_receiveRow = c_rem (domain_start + domain_size) height,
          sr_id = 0\<rparr>,
         \<lparr>sr_to = c_rem ((sz + rank) + 1) sz,
          sr_from = c_rem ((rank + sz) - 1) sz,
          sr_sendRow = (domain_start + domain_size) - 1,
          sr_receiveRow = c_rem ((domain_start + height) - 1) height,
          sr_id = 1\<rparr>]
      else [])"

text \<open>
  The call in \<^verbatim>\<open>main\<close>: the height is \<^verbatim>\<open>params.ny\<close> and the domain is the one
  computed by the loop above.
\<close>

definition main_halo_calls :: "int \<Rightarrow> int \<Rightarrow> int \<Rightarrow> sendrecv_call list" where
  "main_halo_calls rows sz rank =
     (let (domain_start, domain_size) = domain rows sz rank
      in halo_exchange_calls rows domain_start domain_size rank sz)"

subsection \<open>Parameters, cells and grids\<close>

record t_param =
  nx :: int
  ny :: int
  maxIters :: int
  reynolds_dim :: int
  density :: real
  accel :: real
  omega :: real

definition NSPEEDS :: nat where
  "NSPEEDS = 9"

text \<open>
  A \<^verbatim>\<open>t_speed\<close> holds the array \<^verbatim>\<open>speeds[NSPEEDS]\<close>, so \<open>cells i kk\<close> is
  \<^verbatim>\<open>cells[i].speeds[kk]\<close>. An obstacle mask holds C integers; a cell is blocked when
  its entry is not zero.
\<close>

type_synonym t_speed = "nat \<Rightarrow> real"

type_synonym grid = "int \<Rightarrow> t_speed"

type_synonym mask = "int \<Rightarrow> int"

text \<open>The quotient \<^verbatim>\<open>a / b\<close> of two finite floats.\<close>

definition fdiv :: "real \<Rightarrow> real \<Rightarrow> real option" where
  "fdiv a b = (if b = 0 then None else Some (a / b))"

subsection \<open>\<^verbatim>\<open>accelerate_flow\<close>\<close>

text \<open>The assignments \<^verbatim>\<open>cells[i].speeds[kk] += v\<close> and \<^verbatim>\<open>cells[i].speeds[kk] -= v\<close>.\<close>

definition add_to :: "grid \<Rightarrow> int \<Rightarrow> nat \<Rightarrow> real \<Rightarrow> grid" where
  "add_to cells i kk v = cells(i := (cells i)(kk := cells i kk + v))"

definition sub_from :: "grid \<Rightarrow> int \<Rightarrow> nat \<Rightarrow> real \<Rightarrow> grid" where
  "sub_from cells i kk v = cells(i := (cells i)(kk := cells i kk - v))"

text \<open>The body of the loop over the columns \<open>ii\<close>, for the row \<open>jj\<close>.\<close>

definition accelerate_cell ::
  "t_param \<Rightarrow> mask \<Rightarrow> real \<Rightarrow> real \<Rightarrow> int \<Rightarrow> int \<Rightarrow> grid \<Rightarrow> grid" where
  "accelerate_cell params obstacles w1 w2 jj ii cells =
     (if obstacles (ii + jj * nx params) = 0
         \<and> (cells (ii + jj * nx params) 3 - w1) > 0
         \<and> (cells (ii + jj * nx params) 6 - w2) > 0
         \<and> (cells (ii + jj * nx params) 7 - w2) > 0
      then
        (let c1 = add_to cells (ii + jj * nx params) 1 w1;
             c2 = add_to c1 (ii + jj * nx params) 5 w2;
             c3 = add_to c2 (ii + jj * nx params) 8 w2;
             c4 = sub_from c3 (ii + jj * nx params) 3 w1;
             c5 = sub_from c4 (ii + jj * nx params) 6 w2
         in sub_from c5 (ii + jj * nx params) 7 w2)
      else cells)"

definition accelerate_flow :: "t_param \<Rightarrow> grid \<Rightarrow> mask \<Rightarrow> grid" where
  "accelerate_flow params cells obstacles =
     (let w1 = density params * accel params / 9;
          w2 = density params * accel params / 36;
          jj = ny params - 2
      in fold (accelerate_cell params obstacles w1 w2 jj) [0..nx params - 1] cells)"

subsection \<open>\<^verbatim>\<open>propagate\<close> and \<^verbatim>\<open>rebound\<close>\<close>

definition propagate :: "int \<Rightarrow> int \<Rightarrow> t_param \<Rightarrow> grid \<Rightarrow> grid \<Rightarrow> grid" where
  "propagate ii jj params cells tmp_cells =
     (let y_n = c_rem (jj + 1) (ny params);
          x_e = c_rem (ii + 1) (nx params);
          y_s = (if jj = 0 then jj + ny params - 1 else jj - 1);
          x_w = (if ii = 0 then ii + nx params - 1 else ii - 1)
      in tmp_cells(ii + jj * nx params := (tmp_cells (ii + jj * nx params))
           (0 := cells (ii + jj * nx params) 0,
            1 := cells (x_w + jj * nx params) 1,
            2 := cells (ii + y_s * nx params) 2,
            3 := cells (x_e + jj * nx params) 3,
            4 := cells (ii + y_n * nx params) 4,
            5 := cells (x_w + y_s * nx params) 5,
            6 := cells (x_e + y_s * nx params) 6,
            7 := cells (x_e + y_n * nx params) 7,
            8 := cells (x_w + y_n * nx params) 8)))"

definition rebound :: "int \<Rightarrow> int \<Rightarrow> t_param \<Rightarrow> grid \<Rightarrow> grid \<Rightarrow> mask \<Rightarrow> grid" where
  "rebound ii jj params cells tmp_cells obstacles =
     (if obstacles (jj * nx params + ii) \<noteq> 0
      then cells(ii + jj * nx params := (cells (ii + jj * nx params))
           (1 := tmp_cells (ii + jj * nx params) 3,
            2 := tmp_cells (ii + jj * nx params) 4,
            3 := tmp_cells (ii + jj * nx params) 1,
            4 := tmp_cells (ii + jj * nx params) 2,
            5 := tmp_cells (ii + jj * nx params) 7,
            6 := tmp_cells (ii + jj * nx params) 8,
            7 := tmp_cells (ii + jj * nx params) 5,
            8 := tmp_cells (ii + jj * nx params) 6))
      else cells)"

subsection \<open>\<^verbatim>\<open>collision\<close>\<close>

text \<open>
  The loop \<^verbatim>\<open>for (kk = 0; kk < NSPEEDS; kk++) local_density += c.speeds[kk]\<close>, which
  \<^verbatim>\<open>collision\<close> runs on a scratch cell and \<^verbatim>\<open>av_velocity\<close> on a current cell.
\<close>

definition local_density_of :: "t_speed \<Rightarrow> real" where
  "local_density_of c = fold (\<lambda>kk local_density. local_density + c kk) [0..<NSPEEDS] 0"

text \<open>
  The arrays \<^verbatim>\<open>u\<close> and \<^verbatim>\<open>d_equ\<close> that \<^verbatim>\<open>collision\<close> fills from the local
  density and the two velocity components, with the constants \<^verbatim>\<open>c_sq\<close>, \<^verbatim>\<open>w0\<close>,
  \<^verbatim>\<open>w1\<close> and \<^verbatim>\<open>w2\<close> of the function. The result is \<^verbatim>\<open>d_equ\<close>. The entry
  \<^verbatim>\<open>u[0]\<close> is never assigned nor read in the program.
\<close>

definition d_equ_of :: "real \<Rightarrow> real \<Rightarrow> real \<Rightarrow> nat \<Rightarrow> real" where
  "d_equ_of local_density u_x u_y =
     (let c_sq = (1::real) / 3; w0 = (4::real) / 9; w1 = (1::real) / 9; w2 = (1::real) / 36;
          u_sq = u_x * u_x + u_y * u_y;
          u = (\<lambda>kk::nat. 0)
            (1 := u_x, 2 := u_y, 3 := - u_x, 4 := - u_y, 5 := u_x + u_y,
             6 := - u_x + u_y, 7 := - u_x - u_y, 8 := u_x - u_y)
      in (\<lambda>kk::nat. 0)
          (0 := w0 * local_density * (1 - u_sq / (2 * c_sq)),
           1 := w1 * local_density *
             (1 + u 1 / c_sq + (u 1 * u 1) / (2 * c_sq * c_sq) - u_sq / (2 * c_sq)),
           2 := w1 * local_density *
             (1 + u 2 / c_sq + (u 2 * u 2) / (2 * c_sq * c_sq) - u_sq / (2 * c_sq)),
           3 := w1 * local_density *
             (1 + u 3 / c_sq + (u 3 * u 3) / (2 * c_sq * c_sq) - u_sq / (2 * c_sq)),
           4 := w1 * local_density *
             (1 + u 4 / c_sq + (u 4 * u 4) / (2 * c_sq * c_sq) - u_sq / (2 * c_sq)),
           5 := w2 * local_density *
             (1 + u 5 / c_sq + (u 5 * u 5) / (2 * c_sq * c_sq) - u_sq / (2 * c_sq)),
           6 := w2 * local_density *
             (1 + u 6 / c_sq + (u 6 * u 6) / (2 * c_sq * c_sq) - u_sq / (2 * c_sq)),
           7 := w2 * local_density *
             (1 + u 7 / c_sq + (u 7 * u 7) / (2 * c_sq * c_sq) - u_sq / (2 * c_sq)),
           8 := w2 * local_density *
             (1 + u 8 / c_sq + (u 8 * u 8) / (2 * c_sq * c_sq) - u_sq / (2 * c_sq))))"

text \<open>
  With a zero local density the two velocity components are not finite, and neither is
  any of the nine values the relaxation loop then stores: the result is \<open>None\<close>.
\<close>

definition collision ::
  "int \<Rightarrow> int \<Rightarrow> t_param \<Rightarrow> grid \<Rightarrow> grid \<Rightarrow> mask \<Rightarrow> grid option" where
  "collision ii jj params cells tmp_cells obstacles =
     (if obstacles (ii + jj * nx params) = 0
      then
        (let local_density = local_density_of (tmp_cells (ii + jj * nx params))
         in do {
           u_x \<leftarrow> fdiv (tmp_cells (ii + jj * nx params) 1
                        + tmp_cells (ii + jj * nx params) 5
                        + tmp_cells (ii + jj * nx params) 8
                        - (tmp_cells (ii + jj * nx params) 3
                           + tmp_cells (ii + jj * nx params) 6
                           + tmp_cells (ii + jj * nx params) 7)) local_density;
           u_y \<leftarrow> fdiv (tmp_cells (ii + jj * nx params) 2
                        + tmp_cells (ii + jj * nx params) 5
                        + tmp_cells (ii + jj * nx params) 6
                        - (tmp_cells (ii + jj * nx params) 4
                           + tmp_cells (ii + jj * nx params) 7
                           + tmp_cells (ii + jj * nx params) 8)) local_density;
           let d_equ = d_equ_of local_density u_x u_y;
           Some (fold (\<lambda>kk c. c(ii + jj * nx params := (c (ii + jj * nx params))
                         (kk := tmp_cells (ii + jj * nx params) kk
                                + omega params
                                  * (d_equ kk - tmp_cells (ii + jj * nx params) kk))))
                   [0..<NSPEEDS] cells)
         })
      else Some cells)"

subsection \<open>\<^verbatim>\<open>SendRecv\<close> and \<^verbatim>\<open>halo_exchange\<close> on the grid\<close>

text \<open>
  The first loop of \<^verbatim>\<open>SendRecv\<close> copies the row \<^verbatim>\<open>sendRow\<close> into the send buffer
  and the last one copies the receive buffer into the row \<^verbatim>\<open>receiveRow\<close>. What
  \<^verbatim>\<open>MPI_Sendrecv\<close> delivers into the receive buffer comes from another process: it is
  the argument \<open>incoming\<close>. The result is the grid and the buffer that was sent.
\<close>

definition pack_row :: "grid \<Rightarrow> int \<Rightarrow> int \<Rightarrow> (int \<Rightarrow> real) \<Rightarrow> (int \<Rightarrow> real)" where
  "pack_row cells sendRow width sendbuf =
     fold (\<lambda>ii. fold (\<lambda>jj b. b(ii * int NSPEEDS + int jj := cells (ii + sendRow * width) jj))
                     [0..<NSPEEDS])
          [0..width - 1] sendbuf"

definition unpack_row :: "(int \<Rightarrow> real) \<Rightarrow> int \<Rightarrow> int \<Rightarrow> grid \<Rightarrow> grid" where
  "unpack_row recvbuf receiveRow width cells =
     fold (\<lambda>ii. fold (\<lambda>jj c. c(ii + receiveRow * width :=
                         (c (ii + receiveRow * width))
                           (jj := recvbuf (ii * int NSPEEDS + int jj))))
                     [0..<NSPEEDS])
          [0..width - 1] cells"

definition SendRecv ::
  "grid \<Rightarrow> (int \<Rightarrow> real) \<Rightarrow> (int \<Rightarrow> real) \<Rightarrow> sendrecv_call \<Rightarrow> int
     \<Rightarrow> grid \<times> (int \<Rightarrow> real)" where
  "SendRecv cells sendbuf incoming call width =
     (let sendbuf' = pack_row cells (sr_sendRow call) width sendbuf;
          recvbuf = incoming
      in (unpack_row recvbuf (sr_receiveRow call) width cells, sendbuf'))"

text \<open>\<open>incoming\<close> lists what the two calls receive, in order.\<close>

definition halo_exchange ::
  "grid \<Rightarrow> (int \<Rightarrow> real) \<Rightarrow> (int \<Rightarrow> real) list \<Rightarrow> int \<Rightarrow> int \<Rightarrow> int \<Rightarrow> int \<Rightarrow> int \<Rightarrow> int
     \<Rightarrow> grid \<times> (int \<Rightarrow> real)" where
  "halo_exchange cells sendbuf incoming width height domain_start domain_size rank sz =
     fold (\<lambda>(call, msg) (c, b). SendRecv c b msg call width)
          (zip (halo_exchange_calls height domain_start domain_size rank sz) incoming)
          (cells, sendbuf)"

subsection \<open>The time step of \<^verbatim>\<open>main\<close>\<close>

text \<open>\<^verbatim>\<open>if (rank == size - 1) accelerate_flow(params, cells, obstacles);\<close>\<close>

definition accelerate_step :: "t_param \<Rightarrow> int \<Rightarrow> int \<Rightarrow> grid \<Rightarrow> mask \<Rightarrow> grid" where
  "accelerate_step params rank sz cells obstacles =
     (if rank = sz - 1 then accelerate_flow params cells obstacles else cells)"

text \<open>
  The first loop nest calls \<^verbatim>\<open>propagate\<close> and then \<^verbatim>\<open>rebound\<close> on each cell of the
  given rows; the second calls \<^verbatim>\<open>collision\<close> on each of them.
\<close>

definition propagate_rebound_rows ::
  "t_param \<Rightarrow> mask \<Rightarrow> int list \<Rightarrow> grid \<times> grid \<Rightarrow> grid \<times> grid" where
  "propagate_rebound_rows params obstacles rows =
     fold (\<lambda>jj. fold (\<lambda>ii (cells, tmp_cells).
                        let tmp_cells' = propagate ii jj params cells tmp_cells
                        in (rebound ii jj params cells tmp_cells' obstacles, tmp_cells'))
                     [0..nx params - 1])
          rows"

definition collision_rows ::
  "t_param \<Rightarrow> mask \<Rightarrow> grid \<Rightarrow> int list \<Rightarrow> grid option \<Rightarrow> grid option" where
  "collision_rows params obstacles tmp_cells rows =
     fold (\<lambda>jj. fold (\<lambda>ii r. r \<bind> (\<lambda>cells. collision ii jj params cells tmp_cells obstacles))
                     [0..nx params - 1])
          rows"

definition stream_and_collide ::
  "t_param \<Rightarrow> mask \<Rightarrow> int \<Rightarrow> int \<Rightarrow> grid \<times> grid \<Rightarrow> (grid \<times> grid) option" where
  "stream_and_collide params obstacles domain_start domain_size state =
     (let rows = [domain_start..domain_start + domain_size - 1];
          (cells, tmp_cells) = propagate_rebound_rows params obstacles rows state
      in map_option (\<lambda>cells'. (cells', tmp_cells))
           (collision_rows params obstacles tmp_cells rows (Some cells)))"

subsection \<open>\<^verbatim>\<open>total_density\<close> and \<^verbatim>\<open>av_velocity\<close>\<close>

definition total_density :: "t_param \<Rightarrow> grid \<Rightarrow> real" where
  "total_density params cells =
     fold (\<lambda>jj. fold (\<lambda>ii. fold (\<lambda>kk total. total + cells (ii + jj * nx params) kk)
                                   [0..<NSPEEDS])
                     [0..nx params - 1])
          [0..ny params - 1] 0"

text \<open>
  What \<^verbatim>\<open>av_velocity\<close> adds to \<^verbatim>\<open>tot_u\<close> for one cell that is not blocked.
\<close>

definition cell_velocity :: "t_speed \<Rightarrow> real option" where
  "cell_velocity c =
     (let local_density = local_density_of c
      in do {
        u_x \<leftarrow> fdiv (c 1 + c 5 + c 8 - (c 3 + c 6 + c 7)) local_density;
        u_y \<leftarrow> fdiv (c 2 + c 5 + c 6 - (c 4 + c 7 + c 8)) local_density;
        Some (sqrt ((u_x * u_x) + (u_y * u_y)))
      })"

text \<open>The loop nest of \<^verbatim>\<open>av_velocity\<close>; its state is \<open>(tot_cells, tot_u)\<close>.\<close>

definition av_velocity_loop ::
  "t_param \<Rightarrow> grid \<Rightarrow> mask \<Rightarrow> int \<Rightarrow> int \<Rightarrow> int \<times> real option" where
  "av_velocity_loop params cells obstacles domain_start domain_size =
     fold (\<lambda>jj. fold (\<lambda>ii (tot_cells, tot_u).
                        if obstacles (ii + jj * nx params) = 0
                        then (tot_cells + 1,
                              do { t \<leftarrow> tot_u;
                                   v \<leftarrow> cell_velocity (cells (ii + jj * nx params));
                                   Some (t + v) })
                        else (tot_cells, tot_u))
                     [0..nx params - 1])
          [domain_start..domain_start + domain_size - 1] (0, Some 0)"

text \<open>
  \<^verbatim>\<open>MPI_Reduce\<close> with \<^verbatim>\<open>MPI_SUM\<close> at the root: the two entries of the send buffers
  of all processes are added up. \<open>others\<close> lists the send buffers of the other processes.
\<close>

definition MPI_Reduce_sum ::
  "real option \<times> real \<Rightarrow> (real option \<times> real) list \<Rightarrow> real option \<times> real" where
  "MPI_Reduce_sum sendbuf others =
     fold (\<lambda>(u, n) (tu, tn). (do { a \<leftarrow> tu; b \<leftarrow> u; Some (a + b) }, tn + n)) others sendbuf"

definition av_velocity ::
  "t_param \<Rightarrow> grid \<Rightarrow> mask \<Rightarrow> int \<Rightarrow> int \<Rightarrow> int \<Rightarrow> int \<Rightarrow> (real option \<times> real) list
     \<Rightarrow> real option" where
  "av_velocity params cells obstacles rank domain_start domain_size sync others =
     (let (tot_cells, tot_u) = av_velocity_loop params cells obstacles domain_start domain_size
      in if sync = 1
         then
           (let sendbuf = (tot_u, real_of_int tot_cells);
                recvbuf = MPI_Reduce_sum sendbuf others
            in if rank = 0
               then fst recvbuf \<bind> (\<lambda>r0. fdiv r0 (snd recvbuf))
               else tot_u \<bind> (\<lambda>t. fdiv t (real_of_int tot_cells)))
         else tot_u \<bind> (\<lambda>t. fdiv t (real_of_int tot_cells)))"

subsection \<open>The round-robin assignment of the specification\<close>

text \<open>
  Row \<open>r\<close> belongs to worker \<open>r mod w\<close>; the rows assigned to lower-ranked workers.
\<close>

definition round_robin_rows :: "int \<Rightarrow> int \<Rightarrow> int \<Rightarrow> int set" where
  "round_robin_rows rows w k = {r \<in> {0..<rows}. r mod w = k}"

definition lower_rank_rows :: "int \<Rightarrow> int \<Rightarrow> int \<Rightarrow> int set" where
  "lower_rank_rows rows w k = {r \<in> {0..<rows}. r mod w < k}"

subsection \<open>The forcing of the specification\<close>

text \<open>
  Add \<open>w1\<close> to direction 1 and \<open>w2\<close> to directions 5 and 8; subtract \<open>w1\<close> from
  direction 3 and \<open>w2\<close> from directions 6 and 7.
\<close>

definition forced_cell :: "real \<Rightarrow> real \<Rightarrow> t_speed \<Rightarrow> t_speed" where
  "forced_cell w1 w2 c =
     c(1 := c 1 + w1, 5 := c 5 + w2, 8 := c 8 + w2, 3 := c 3 - w1, 6 := c 6 - w2, 7 := c 7 - w2)"

subsection \<open>The equilibrium of the specification\<close>

text \<open>
  The nine lattice directions (rest; east, north, west, south; north-east, north-west,
  south-west, south-east) with their weights 4/9, 1/9 and 1/36; the bulk velocity of a
  cell, the direction-weighted sums divided by the density; and the second-order
  expansion of the equilibrium distribution with the squared speed of sound 1/3.
\<close>

definition lattice_weight :: "nat \<Rightarrow> real" where
  "lattice_weight kk = (if kk = 0 then 4 / 9 else if kk \<le> 4 then 1 / 9 else 1 / 36)"

definition lattice_dir :: "nat \<Rightarrow> real \<times> real" where
  "lattice_dir kk =
     [(0, 0), (1, 0), (0, 1), (- 1, 0), (0, - 1), (1, 1), (- 1, 1), (- 1, - 1), (1, - 1)] ! kk"

definition bulk_velocity :: "t_speed \<Rightarrow> real \<times> real" where
  "bulk_velocity c =
     ((\<Sum>kk<NSPEEDS. fst (lattice_dir kk) * c kk) / (\<Sum>kk<NSPEEDS. c kk),
      (\<Sum>kk<NSPEEDS. snd (lattice_dir kk) * c kk) / (\<Sum>kk<NSPEEDS. c kk))"

definition equilibrium :: "real \<Rightarrow> real \<times> real \<Rightarrow> nat \<Rightarrow> real" where
  "equilibrium rho u kk =
     (let c_sq = 1 / 3;
          eu = fst (lattice_dir kk) * fst u + snd (lattice_dir kk) * snd u;
          u_sq = fst u * fst u + snd u * snd u
      in lattice_weight kk * rho * (1 + eu / c_sq + eu\<^sup>2 / (2 * c_sq\<^sup>2) - u_sq / (2 * c_sq)))"

text \<open>
  The relaxation of a scratch cell \<open>t\<close> towards its equilibrium, written over the nine
  components of the current cell \<open>old\<close>.
\<close>

definition relaxed_cell :: "real \<Rightarrow> t_speed \<Rightarrow> t_speed \<Rightarrow> t_speed" where
  "relaxed_cell om old t =
     (\<lambda>kk. if kk < NSPEEDS
           then t kk + om * (equilibrium (\<Sum>kk<NSPEEDS. t kk) (bulk_velocity t) kk - t kk)
           else old kk)"

subsection \<open>The average velocity of the specification\<close>

text \<open>
  The cells of a row range in the order of the loops, those of them that are not
  obstacles, the speed \<open>sqrt (u_x\<^sup>2 + u_y\<^sup>2)\<close> of a cell, and the sum of the speeds of
  a list of cells, which is no real number when one of them has density zero. The sum of
  several such values is no real number when one of them is not.
\<close>

definition row_range_cells :: "t_param \<Rightarrow> int \<Rightarrow> int \<Rightarrow> int list" where
  "row_range_cells params domain_start domain_size =
     map (\<lambda>(jj, ii). ii + jj * nx params)
       (List.product [domain_start..domain_start + domain_size - 1] [0..nx params - 1])"

definition fluid_cells :: "t_param \<Rightarrow> mask \<Rightarrow> int \<Rightarrow> int \<Rightarrow> int list" where
  "fluid_cells params obstacles domain_start domain_size =
     filter (\<lambda>i. obstacles i = 0) (row_range_cells params domain_start domain_size)"

definition cell_speed :: "t_speed \<Rightarrow> real" where
  "cell_speed c = sqrt ((fst (bulk_velocity c))\<^sup>2 + (snd (bulk_velocity c))\<^sup>2)"

definition velocity_sum :: "grid \<Rightarrow> int list \<Rightarrow> real option" where
  "velocity_sum cells is =
     (if \<forall>i\<in>set is. (\<Sum>kk<NSPEEDS. cells i kk) \<noteq> 0
      then Some (\<Sum>i\<leftarrow>is. cell_speed (cells i)) else None)"

definition sum_options :: "real option list \<Rightarrow> real option" where
  "sum_options us = (if None \<in> set us then None else Some (\<Sum>u\<leftarrow>us. the u))"

subsection \<open>Example inputs\<close>

text \<open>A grid of one column and three rows, with a forcing of \<open>w1 = 1\<close> and \<open>w2 = 1/4\<close>.\<close>

definition three_rows :: t_param where
  "three_rows =
     \<lparr>nx = 1, ny = 3, maxIters = 1, reynolds_dim = 1, density = 9, accel = 1, omega = 1\<rparr>"

text \<open>A grid with the value \<open>v\<close> everywhere, and the masks without and with obstacles only.\<close>

definition uniform_cells :: "real \<Rightarrow> grid" where
  "uniform_cells v = (\<lambda>i kk. v)"

definition no_obstacles :: mask where
  "no_obstacles = (\<lambda>i. 0)"

definition all_obstacles :: mask where
  "all_obstacles = (\<lambda>i. 1)"

text \<open>A message buffer of zeros.\<close>

definition zero_buffer :: "int \<Rightarrow> real" where
  "zero_buffer = (\<lambda>b. 0)"

text \<open>A grid whose values tell the cell and the direction they come from.\<close>

definition index_cells :: grid where
  "index_cells = (\<lambda>i kk. 10 * real_of_int i + real kk)"

subsection \<open>Auxiliary notions used in the proofs\<close>

text \<open>
  The lower end of the block of rank \<open>k\<close> in closed form: \<open>n div w\<close> rows for each
  lower rank, and one more for each of the first \<open>n mod w\<close> ranks.
\<close>

definition block_bound :: "int \<Rightarrow> int \<Rightarrow> int \<Rightarrow> int" where
  "block_bound n w k = (n div w) * k + min k (n mod w)"

text \<open>The test of \<^verbatim>\<open>accelerate_flow\<close> on one cell, given its entry in the mask.\<close>

definition forcing_applies :: "real \<Rightarrow> real \<Rightarrow> int \<Rightarrow> t_speed \<Rightarrow> bool" where
  "forcing_applies w1 w2 blocked c \<longleftrightarrow>
     blocked = 0 \<and> 0 < c 3 - w1 \<and> 0 < c 6 - w2 \<and> 0 < c 7 - w2"

text \<open>The body of the loop nest of \<^verbatim>\<open>av_velocity\<close>, for the cell with index \<open>i\<close>.\<close>

definition av_step :: "grid \<Rightarrow> mask \<Rightarrow> int \<Rightarrow> int \<times> real option \<Rightarrow> int \<times> real option" where
  "av_step cells obstacles i = (\<lambda>(tot_cells, tot_u).
     if obstacles i = 0
     then (tot_cells + 1, do { t \<leftarrow> tot_u; v \<leftarrow> cell_velocity (cells i); Some (t + v) })
     else (tot_cells, tot_u))"

text \<open>
  The index of the cell in row \<open>jj\<close> and column \<open>ii\<close>, and the nine values that
  \<^verbatim>\<open>propagate\<close> stores into the scratch cell there (over its former content).
\<close>

definition cell_index :: "t_param \<Rightarrow> int \<times> int \<Rightarrow> int" where
  "cell_index params = (\<lambda>(jj, ii). ii + jj * nx params)"

definition streamed :: "t_param \<Rightarrow> grid \<Rightarrow> int \<times> int \<Rightarrow> t_speed \<Rightarrow> t_speed" where
  "streamed params cells = (\<lambda>(jj, ii) old.
     (propagate ii jj params cells (\<lambda>i. old)) (ii + jj * nx params))"

text \<open>A loop that stores, for each \<open>p\<close> of a list, a new element at the index of \<open>p\<close>.\<close>

definition store_each ::
  "('p \<Rightarrow> 'i) \<Rightarrow> ('p \<Rightarrow> 'v \<Rightarrow> 'v) \<Rightarrow> 'p list \<Rightarrow> ('i \<Rightarrow> 'v) \<Rightarrow> 'i \<Rightarrow> 'v" where
  "store_each idx h ps t = fold (\<lambda>p t. t(idx p := h p (t (idx p)))) ps t"

text \<open>The neighbours \<^verbatim>\<open>x_e\<close>, \<^verbatim>\<open>y_n\<close> and \<^verbatim>\<open>x_w\<close>, \<^verbatim>\<open>y_s\<close> of \<^verbatim>\<open>propagate\<close>.\<close>

definition east :: "int \<Rightarrow> int \<Rightarrow> int" where
  "east n i = c_rem (i + 1) n"

definition west :: "int \<Rightarrow> int \<Rightarrow> int" where
  "west n i = (if i = 0 then i + n - 1 else i - 1)"

section \<open>Properties\<close>

subsection \<open>The partitioner in closed form\<close>

lemma c_rem_nonneg: "0 \<le> a \<Longrightarrow> 0 < b \<Longrightarrow> c_rem a b = a mod b"
  unfolding c_rem_def by (simp add: smod_mod_positive)

lemma domain_empty: "rows \<le> 0 \<Longrightarrow> domain rows sz rank = (0, 0)"
  by (simp add: domain_def)

lemma domain_next:
  "0 \<le> n \<Longrightarrow> domain (n + 1) sz rank = domain_step sz rank n (domain n sz rank)"
  by (simp add: domain_def upto_rec2)

lemma div_mod_next:
  fixes n w :: int
  assumes "0 \<le> n" "0 < w"
  shows "(if n mod w + 1 = w then (n + 1) div w = n div w + 1 \<and> (n + 1) mod w = 0
         else (n + 1) div w = n div w \<and> (n + 1) mod w = n mod w + 1)"
proof (cases "n mod w + 1 = w")
  case True
  have "n + 1 = w * (n div w) + w"
    using True mult_div_mod_eq [of w n] by linarith
  then have "n + 1 = w * (n div w + 1) + 0"
    by (simp add: algebra_simps)
  then have "(n + 1) div w = n div w + 1" "(n + 1) mod w = 0"
    using assms(2) by (metis int_div_pos_eq order_refl, metis int_mod_pos_eq order_refl)
  with True show ?thesis by simp
next
  case False
  have r: "0 \<le> n mod w + 1" "n mod w + 1 < w"
    using assms(2) False pos_mod_bound [of w n] pos_mod_sign [of w n] by linarith+
  have "n + 1 = w * (n div w) + (n mod w + 1)"
    using mult_div_mod_eq [of w n] by simp
  then have "(n + 1) div w = n div w" "(n + 1) mod w = n mod w + 1"
    using r by (metis int_div_pos_eq, metis int_mod_pos_eq)
  with False show ?thesis by simp
qed

lemma domain_closed:
  assumes "0 \<le> n" "0 < w" "0 \<le> k" "k < w"
  shows "domain n w k =
    ((n div w) * k + min k (n mod w), n div w + (if k < n mod w then 1 else 0))"
  using assms(1)
proof (induction n rule: int_ge_induct)
  case base
  show ?case using assms by (simp add: domain_empty)
next
  case (step i)
  define q where "q = i div w"
  define m where "m = i mod w"
  have m: "0 \<le> m" "m < w"
    using assms(2) by (simp_all add: m_def)
  have c: "c_rem i w = m"
    using step.hyps assms(2) by (simp add: c_rem_nonneg m_def)
  have d: "domain (i + 1) w k =
      (if m < k then q * k + min k m + 1 else q * k + min k m,
       if m = k then q + (if k < m then 1 else 0) + 1 else q + (if k < m then 1 else 0))"
    using step.hyps step.IH by (simp add: domain_next domain_step_def c q_def m_def)
  show ?case
  proof (cases "m + 1 = w")
    case True
    then have e: "(i + 1) div w = q + 1" "(i + 1) mod w = 0"
      using div_mod_next [OF step.hyps assms(2)] by (simp_all add: q_def m_def)
    have "\<not> m < k" "min k m = k" "min k 0 = 0"
      using True assms by simp_all
    then show ?thesis
      unfolding d e using True assms by (auto simp: algebra_simps)
  next
    case False
    then have e: "(i + 1) div w = q" "(i + 1) mod w = m + 1"
      using div_mod_next [OF step.hyps assms(2)] by (simp_all add: q_def m_def)
    show ?thesis
      unfolding d e by (auto simp: min_def)
  qed
qed

lemma block_bound_0: "0 \<le> n \<Longrightarrow> 0 < w \<Longrightarrow> block_bound n w 0 = 0"
  by (simp add: block_bound_def)

lemma block_bound_top: "0 < w \<Longrightarrow> block_bound n w w = n"
proof -
  assume w: "0 < w"
  have "n mod w < w" using w by simp
  then have "min w (n mod w) = n mod w" by simp
  then show ?thesis by (simp add: block_bound_def)
qed

lemma block_bound_mono:
  assumes "0 \<le> n" "0 < w" "j \<le> k"
  shows "block_bound n w j \<le> block_bound n w k"
proof -
  have "0 \<le> n div w" using assms by (simp add: pos_imp_zdiv_nonneg_iff)
  then have "(n div w) * j \<le> (n div w) * k" using assms(3) by (simp add: mult_left_mono)
  moreover have "min j (n mod w) \<le> min k (n mod w)" using assms(3) by simp
  ultimately show ?thesis unfolding block_bound_def by linarith
qed

lemma domain_block_bound:
  assumes "0 \<le> n" "0 < w" "0 \<le> k" "k < w"
  shows "fst (domain n w k) = block_bound n w k"
    and "fst (domain n w k) + snd (domain n w k) = block_bound n w (k + 1)"
  using assms by (auto simp: domain_closed block_bound_def algebra_simps min_def)

lemma set_owned_rows:
  assumes "0 \<le> n" "0 < w" "0 \<le> k" "k < w"
  shows "set (owned_rows n w k) = {block_bound n w k ..< block_bound n w (k + 1)}"
proof -
  obtain s d where sd: "domain n w k = (s, d)" by (cases "domain n w k")
  have "s = block_bound n w k" "s + d = block_bound n w (k + 1)"
    using domain_block_bound [OF assms] sd by simp_all
  then show ?thesis
    by (auto simp: owned_rows_def sd)
qed

lemma block_bound_find:
  assumes "0 \<le> n" "0 < w" "0 \<le> r"
  shows "0 \<le> v \<Longrightarrow> r < block_bound n w v \<Longrightarrow>
    \<exists>k. 0 \<le> k \<and> k < v \<and> block_bound n w k \<le> r \<and> r < block_bound n w (k + 1)"
proof (induction v rule: int_ge_induct)
  case base
  then show ?case using assms by (simp add: block_bound_0)
next
  case (step i)
  show ?case
  proof (cases "r < block_bound n w i")
    case True
    then obtain k where "0 \<le> k" "k < i" "block_bound n w k \<le> r" "r < block_bound n w (k + 1)"
      using step.IH by blast
    then show ?thesis by (intro exI [of _ k]) simp
  next
    case False
    then show ?thesis using step.hyps step.prems by (intro exI [of _ i]) simp
  qed
qed

subsection \<open>Partition completeness\<close>

text \<open>
  Claim C3. For at least one row and at least one process, the row ranges
  \<open>[start, start + size)\<close> of the ranks \<open>0, \<dots>, w - 1\<close> have union \<open>[0, rows)\<close>, the
  ranges of two different ranks share no row, and the sizes of any two ranks differ by
  at most one.
\<close>

theorem partition_complete:
  assumes "1 \<le> rows" "1 \<le> w"
  shows "(\<Union>k\<in>{0..<w}. set (owned_rows rows w k)) = {0..<rows}
       \<and> (\<forall>j\<in>{0..<w}. \<forall>k\<in>{0..<w}. j \<noteq> k \<longrightarrow>
            set (owned_rows rows w j) \<inter> set (owned_rows rows w k) = {})
       \<and> (\<forall>j\<in>{0..<w}. \<forall>k\<in>{0..<w}.
            \<bar>snd (domain rows w j) - snd (domain rows w k)\<bar> \<le> 1)"
proof (intro conjI ballI impI)
  have n: "0 \<le> rows" and w: "0 < w" using assms by simp_all
  show "(\<Union>k\<in>{0..<w}. set (owned_rows rows w k)) = {0..<rows}"
  proof (intro set_eqI iffI)
    fix r assume "r \<in> (\<Union>k\<in>{0..<w}. set (owned_rows rows w k))"
    then obtain k where k: "0 \<le> k" "k < w" and r: "r \<in> set (owned_rows rows w k)"
      by auto
    have "block_bound rows w k \<le> r" "r < block_bound rows w (k + 1)"
      using r set_owned_rows [OF n w k] by simp_all
    moreover have "block_bound rows w 0 \<le> block_bound rows w k"
      using block_bound_mono [OF n w] k by simp
    moreover have "block_bound rows w (k + 1) \<le> block_bound rows w w"
      using block_bound_mono [OF n w] k by simp
    ultimately show "r \<in> {0..<rows}"
      using block_bound_0 [OF n w] block_bound_top [OF w, of rows] by simp
  next
    fix r assume "r \<in> {0..<rows}"
    then have r: "0 \<le> r" "r < block_bound rows w w"
      using block_bound_top [OF w, of rows] by simp_all
    obtain k where k: "0 \<le> k" "k < w" "block_bound rows w k \<le> r" "r < block_bound rows w (k + 1)"
      using block_bound_find [OF n w r(1) _ r(2)] w by auto
    then have "r \<in> set (owned_rows rows w k)"
      using set_owned_rows [OF n w k(1,2)] by simp
    then show "r \<in> (\<Union>k\<in>{0..<w}. set (owned_rows rows w k))"
      using k(1,2) by auto
  qed
next
  fix j k assume jk: "j \<in> {0..<w}" "k \<in> {0..<w}" "j \<noteq> k"
  have n: "0 \<le> rows" and w: "0 < w" using assms by simp_all
  have sj: "set (owned_rows rows w j) = {block_bound rows w j ..< block_bound rows w (j + 1)}"
    using set_owned_rows [OF n w] jk by simp
  have sk: "set (owned_rows rows w k) = {block_bound rows w k ..< block_bound rows w (k + 1)}"
    using set_owned_rows [OF n w] jk by simp
  consider "j + 1 \<le> k" | "k + 1 \<le> j" using jk(3) by linarith
  then show "set (owned_rows rows w j) \<inter> set (owned_rows rows w k) = {}"
  proof cases
    case 1
    then have "block_bound rows w (j + 1) \<le> block_bound rows w k"
      by (rule block_bound_mono [OF n w])
    then show ?thesis unfolding sj sk by auto
  next
    case 2
    then have "block_bound rows w (k + 1) \<le> block_bound rows w j"
      by (rule block_bound_mono [OF n w])
    then show ?thesis unfolding sj sk by auto
  qed
next
  fix j k assume jk: "j \<in> {0..<w}" "k \<in> {0..<w}"
  have n: "0 \<le> rows" and w: "0 < w" using assms by simp_all
  show "\<bar>snd (domain rows w j) - snd (domain rows w k)\<bar> \<le> 1"
    using jk by (simp add: domain_closed [OF n w])
qed

theorem partition_complete_witness:
  "(\<Union>k\<in>{0..<2}. set (owned_rows 3 2 k)) = {0..<3}
     \<and> set (owned_rows 3 2 0) \<inter> set (owned_rows 3 2 1) = {}
     \<and> \<bar>snd (domain 3 2 0) - snd (domain 3 2 1)\<bar> \<le> 1"
  using partition_complete [of 3 2] by simp

lemma domain_nonneg:
  assumes "0 \<le> n" "0 < w" "0 \<le> k" "k < w"
  shows "0 \<le> fst (domain n w k)" "0 \<le> snd (domain n w k)"
    "fst (domain n w k) + snd (domain n w k) \<le> n"
proof -
  have "block_bound n w 0 \<le> block_bound n w k"
    using assms by (intro block_bound_mono) simp_all
  then show "0 \<le> fst (domain n w k)"
    using assms by (simp add: domain_block_bound block_bound_0)
  have "0 \<le> n div w" using assms by (simp add: pos_imp_zdiv_nonneg_iff)
  then show "0 \<le> snd (domain n w k)" using assms by (simp add: domain_closed)
  have "block_bound n w (k + 1) \<le> block_bound n w w"
    using assms by (intro block_bound_mono) simp_all
  then show "fst (domain n w k) + snd (domain n w k) \<le> n"
    using assms domain_block_bound(2) [OF assms] by (simp add: block_bound_top)
qed

subsection \<open>Rows of the halo exchange\<close>

lemma main_halo_calls_eq:
  assumes "1 \<le> rows" "1 < w" "0 \<le> k" "k < w"
  shows "main_halo_calls rows w k =
    [\<lparr>sr_to = (k - 1) mod w, sr_from = (k + 1) mod w,
      sr_sendRow = fst (domain rows w k),
      sr_receiveRow = (fst (domain rows w k) + snd (domain rows w k)) mod rows,
      sr_id = 0\<rparr>,
     \<lparr>sr_to = (k + 1) mod w, sr_from = (k - 1) mod w,
      sr_sendRow = fst (domain rows w k) + snd (domain rows w k) - 1,
      sr_receiveRow = (fst (domain rows w k) - 1 + rows) mod rows,
      sr_id = 1\<rparr>]"
proof -
  obtain start len where d: "domain rows w k = (start, len)"
    by (cases "domain rows w k")
  have n: "0 \<le> rows" and w: "0 < w" using assms by simp_all
  have s: "0 \<le> start" "0 \<le> len"
    using domain_nonneg [OF n w assms(3,4)] d by simp_all
  have "c_rem (w + k - 1) w = (k - 1) mod w"
    using assms by (simp add: c_rem_nonneg) (metis add.commute add_diff_eq mod_add_self1)
  moreover have "c_rem (w + k + 1) w = (k + 1) mod w" "c_rem (k + w - 1) w = (k - 1) mod w"
    using assms
    by (simp_all add: c_rem_nonneg add.assoc) (metis add.commute add_diff_eq mod_add_self1)
  moreover have "c_rem (start + len) rows = (start + len) mod rows"
    using assms s by (simp add: c_rem_nonneg)
  moreover have "c_rem (start + rows - 1) rows = (start - 1 + rows) mod rows"
    using assms s by (simp add: c_rem_nonneg algebra_simps)
  ultimately show ?thesis
    using assms by (simp add: main_halo_calls_def halo_exchange_calls_def d)
qed

text \<open>
  The two exchanges fit together around the ring: the row a process receives into is,
  modulo the number of rows, the row that the sending process packs in the same exchange.
\<close>

lemma halo_ring_consistent:
  assumes "1 \<le> rows" "1 < w" "0 \<le> k" "k < w"
  shows "sr_receiveRow (main_halo_calls rows w k ! 0)
           = sr_sendRow (main_halo_calls rows w (sr_from (main_halo_calls rows w k ! 0)) ! 0)
               mod rows"
    and "sr_receiveRow (main_halo_calls rows w k ! 1)
           = sr_sendRow (main_halo_calls rows w (sr_from (main_halo_calls rows w k ! 1)) ! 1)
               mod rows"
proof -
  have n: "0 \<le> rows" and w: "0 < w" using assms by simp_all
  have b: "fst (domain rows w j) = block_bound rows w j"
    "fst (domain rows w j) + snd (domain rows w j) = block_bound rows w (j + 1)"
    if "0 \<le> j" "j < w" for j
    using domain_block_bound [OF n w that] by simp_all
  have c: "sr_from (main_halo_calls rows w j ! 0) = (j + 1) mod w"
    "sr_sendRow (main_halo_calls rows w j ! 0) = block_bound rows w j"
    "sr_receiveRow (main_halo_calls rows w j ! 0) = block_bound rows w (j + 1) mod rows"
    "sr_from (main_halo_calls rows w j ! 1) = (j - 1) mod w"
    "sr_sendRow (main_halo_calls rows w j ! 1) = block_bound rows w (j + 1) - 1"
    "sr_receiveRow (main_halo_calls rows w j ! 1) = (block_bound rows w j - 1 + rows) mod rows"
    if "0 \<le> j" "j < w" for j
    using b [OF that] by (simp_all add: main_halo_calls_eq [OF assms(1,2) that])
  have s: "0 \<le> (k + 1) mod w" "(k + 1) mod w < w" "0 \<le> (k - 1) mod w" "(k - 1) mod w < w"
    using w by simp_all
  have "block_bound rows w (k + 1) mod rows = block_bound rows w ((k + 1) mod w) mod rows"
  proof (cases "k + 1 = w")
    case True
    then show ?thesis using n w by (simp add: block_bound_top block_bound_0)
  next
    case False
    then have "(k + 1) mod w = k + 1" using assms by simp
    then show ?thesis by simp
  qed
  then show "sr_receiveRow (main_halo_calls rows w k ! 0)
           = sr_sendRow (main_halo_calls rows w (sr_from (main_halo_calls rows w k ! 0)) ! 0)
               mod rows"
    by (simp only: c(1,3) [OF assms(3,4)] c(2) [OF s(1,2)])
  have "(block_bound rows w k - 1 + rows) mod rows
      = (block_bound rows w ((k - 1) mod w + 1) - 1) mod rows"
  proof (cases "k = 0")
    case True
    have "(- 1) mod w = w - 1" using assms(2) by (simp add: zmod_minus1)
    then show ?thesis using True n w by (simp add: block_bound_top block_bound_0)
  next
    case False
    then have "(k - 1) mod w = k - 1" using assms by simp
    moreover have "(block_bound rows w k - 1 + rows) mod rows = (block_bound rows w k - 1) mod rows"
      by simp
    ultimately show ?thesis by simp
  qed
  then show "sr_receiveRow (main_halo_calls rows w k ! 1)
           = sr_sendRow (main_halo_calls rows w (sr_from (main_halo_calls rows w k ! 1)) ! 1)
               mod rows"
    by (simp only: c(4,6) [OF assms(3,4)] c(5) [OF s(3,4)])
qed

text \<open>
  Claim C1, as the code has it. With more than one process, the first exchange sends
  the first owned row to the predecessor rank and receives from the successor rank into
  the row that follows the owned range, \<open>(start + size) mod rows\<close>; the second
  exchange sends the last owned row to the successor rank and receives from the
  predecessor rank into the row that precedes the owned range,
  \<open>(start - 1 + rows) mod rows\<close>.
\<close>

theorem halo_exchange_rows:
  assumes "1 \<le> rows" "1 < w" "0 \<le> k" "k < w"
  shows "main_halo_calls rows w k =
    [\<lparr>sr_to = (k - 1) mod w, sr_from = (k + 1) mod w,
      sr_sendRow = fst (domain rows w k),
      sr_receiveRow = (fst (domain rows w k) + snd (domain rows w k)) mod rows,
      sr_id = 0\<rparr>,
     \<lparr>sr_to = (k + 1) mod w, sr_from = (k - 1) mod w,
      sr_sendRow = fst (domain rows w k) + snd (domain rows w k) - 1,
      sr_receiveRow = (fst (domain rows w k) - 1 + rows) mod rows,
      sr_id = 1\<rparr>]"
  using assms by (rule main_halo_calls_eq)

theorem halo_exchange_rows_witness:
  "main_halo_calls 4 2 0 =
    [\<lparr>sr_to = 1, sr_from = 1, sr_sendRow = 0, sr_receiveRow = 2, sr_id = 0\<rparr>,
     \<lparr>sr_to = 1, sr_from = 1, sr_sendRow = 1, sr_receiveRow = 3, sr_id = 1\<rparr>]"
proof -
  have d: "domain 4 2 0 = (0, 2)" by code_simp
  show ?thesis using halo_exchange_rows [of 4 2 0] by (simp add: d)
qed

text \<open>
  The claim as it is written has the two receive rows the other way round. With four
  rows and two processes, rank 0 owns rows 0 and 1; its first exchange receives into
  row 2, not into row \<open>(0 - 1 + 4) mod 4 = 3\<close>.
\<close>

theorem halo_exchange_rows_counterexample:
  "\<not> (sr_receiveRow (main_halo_calls 4 2 0 ! 0) = (fst (domain 4 2 0) - 1 + 4) mod 4
      \<and> sr_receiveRow (main_halo_calls 4 2 0 ! 1)
          = (fst (domain 4 2 0) + snd (domain 4 2 0)) mod 4)"
  by code_simp

subsection \<open>Owned rows and the round-robin assignment\<close>

lemma atLeastLessThan_int_next: "0 \<le> (n::int) \<Longrightarrow> {0..<n + 1} = insert n {0..<n}"
  by auto

lemma domain_counts:
  assumes "0 < w"
  shows "domain n w k =
    (int (card (lower_rank_rows n w k)), int (card (round_robin_rows n w k)))"
proof (cases "0 \<le> n")
  case False
  then show ?thesis by (simp add: domain_empty lower_rank_rows_def round_robin_rows_def)
next
  case True
  then show ?thesis
  proof (induction n rule: int_ge_induct)
    case base
    show ?case by (simp add: domain_empty lower_rank_rows_def round_robin_rows_def)
  next
    case (step i)
    have l: "lower_rank_rows (i + 1) w k =
        (if i mod w < k then insert i (lower_rank_rows i w k) else lower_rank_rows i w k)"
      using step.hyps by (auto simp: lower_rank_rows_def atLeastLessThan_int_next)
    have r: "round_robin_rows (i + 1) w k =
        (if i mod w = k then insert i (round_robin_rows i w k) else round_robin_rows i w k)"
      using step.hyps by (auto simp: round_robin_rows_def atLeastLessThan_int_next)
    have "lower_rank_rows i w k \<subseteq> {0..<i}" "round_robin_rows i w k \<subseteq> {0..<i}"
      by (auto simp: lower_rank_rows_def round_robin_rows_def)
    then have f: "finite (lower_rank_rows i w k)" "finite (round_robin_rows i w k)"
      by (auto intro: finite_subset)
    have n: "i \<notin> lower_rank_rows i w k" "i \<notin> round_robin_rows i w k"
      by (simp_all add: lower_rank_rows_def round_robin_rows_def)
    show ?case
      using step.hyps assms f n
      by (simp add: domain_next step.IH domain_step_def c_rem_nonneg l r)
  qed
qed

lemma owned_rows_eq_round_robin_iff:
  assumes "1 \<le> w" "0 \<le> k" "k < w" "0 \<le> n"
  shows "set (owned_rows n w k) = round_robin_rows n w k \<longleftrightarrow> w = 1 \<or> n \<le> w"
proof
  assume "w = 1 \<or> n \<le> w"
  then consider "w = 1" | "n < w" | "n = w" by linarith
  then show "set (owned_rows n w k) = round_robin_rows n w k"
  proof cases
    case 1
    then have k: "k = 0" using assms by simp
    have "block_bound n w 0 = 0" "block_bound n w (0 + 1) = n"
      using 1 by (simp_all add: block_bound_def)
    then have "set (owned_rows n w k) = {0..<n}"
      using assms k by (simp add: set_owned_rows)
    moreover have "round_robin_rows n w k = {0..<n}"
      using 1 k by (auto simp: round_robin_rows_def)
    ultimately show ?thesis by simp
  next
    case 2
    then have d: "n div w = 0" "n mod w = n" using assms by simp_all
    have o: "set (owned_rows n w k) = {min k n ..< min (k + 1) n}"
      using assms by (simp add: set_owned_rows block_bound_def d)
    have "\<And>r. 0 \<le> r \<Longrightarrow> r < n \<Longrightarrow> r mod w = r" using 2 by simp
    then have rr: "round_robin_rows n w k = (if k < n then {k} else {})"
      using assms by (auto simp: round_robin_rows_def)
    show ?thesis unfolding o rr by (auto simp: min_def)
  next
    case 3
    then have d: "n div w = 1" "n mod w = 0" using assms by simp_all
    have o: "set (owned_rows n w k) = {k ..< k + 1}"
      using assms by (simp add: set_owned_rows block_bound_def d)
    have "\<And>r. 0 \<le> r \<Longrightarrow> r < n \<Longrightarrow> r mod w = r" using 3 by simp
    then have rr: "round_robin_rows n w k = {k}"
      using assms 3 by (auto simp: round_robin_rows_def)
    show ?thesis unfolding o rr by auto
  qed
next
  assume e: "set (owned_rows n w k) = round_robin_rows n w k"
  show "w = 1 \<or> n \<le> w"
  proof (rule ccontr)
    assume "\<not> (w = 1 \<or> n \<le> w)"
    then have w: "1 < w" "w < n" using assms by simp_all
    have q: "1 \<le> n div w"
      using w pos_imp_zdiv_pos_iff [of w n] by linarith
    have m: "1 \<le> n mod w" if "n div w = 1"
    proof -
      have "n = w + n mod w" using that mult_div_mod_eq [of w n] by simp
      moreover have "0 \<le> n mod w" using w by simp
      ultimately show ?thesis using w by linarith
    qed
    have o: "set (owned_rows n w k) = {block_bound n w k ..< block_bound n w (k + 1)}"
      using assms w by (simp add: set_owned_rows)
    show False
    proof (cases "k = 0")
      case True
      have "0 \<le> n mod w" using w by simp
      then have "block_bound n w 1 \<ge> 2" using q m
        by (cases "n div w = 1") (simp_all add: block_bound_def min_def)
      then have "1 \<in> set (owned_rows n w k)" using True w o by (simp add: block_bound_def)
      moreover have "1 \<notin> round_robin_rows n w k"
        using True w by (simp add: round_robin_rows_def)
      ultimately show False using e by simp
    next
      case False
      then have k: "1 \<le> k" using assms by simp
      have "k \<in> round_robin_rows n w k" using assms w by (simp add: round_robin_rows_def)
      moreover have "k < block_bound n w k"
      proof (cases "n div w = 1")
        case True
        then show ?thesis using m k by (simp add: block_bound_def min_def)
      next
        case False
        then have "2 \<le> n div w" using q by simp
        then have "2 * k \<le> (n div w) * k" using k by (simp add: mult_right_mono)
        moreover have "0 \<le> min k (n mod w)" using k w by simp
        ultimately show ?thesis using k unfolding block_bound_def by linarith
      qed
      then have "k \<notin> set (owned_rows n w k)" using o by simp
      ultimately show False using e by simp
    qed
  qed
qed

text \<open>
  Claim C2, as the code has it. For every row count, at least one worker and every rank,
  the contiguous range \<open>[start, start + size)\<close> a worker iterates over has as many
  rows as the round-robin set \<open>{r \<in> [0, rows). r mod w = rank}\<close> and starts at the
  number of rows that the round-robin rule gives to lower ranks; the two sets of rows
  are equal exactly when there is one worker or there are no more rows than workers.
\<close>

theorem owned_rows_round_robin:
  assumes "1 \<le> w" "0 \<le> k" "k < w"
  shows "int (length (owned_rows n w k)) = int (card (round_robin_rows n w k))
       \<and> fst (domain n w k) = int (card (lower_rank_rows n w k))
       \<and> (set (owned_rows n w k) = round_robin_rows n w k \<longleftrightarrow> w = 1 \<or> n \<le> w)"
proof (intro conjI)
  have w: "0 < w" using assms by simp
  show "int (length (owned_rows n w k)) = int (card (round_robin_rows n w k))"
    by (simp add: owned_rows_def domain_counts [OF w])
  show "fst (domain n w k) = int (card (lower_rank_rows n w k))"
    by (simp add: domain_counts [OF w])
  show "set (owned_rows n w k) = round_robin_rows n w k \<longleftrightarrow> w = 1 \<or> n \<le> w"
  proof (cases "0 \<le> n")
    case True
    then show ?thesis using owned_rows_eq_round_robin_iff [OF assms] by simp
  next
    case False
    then show ?thesis
      using assms by (auto simp: owned_rows_def domain_empty round_robin_rows_def)
  qed
qed

theorem owned_rows_round_robin_witness:
  "int (length (owned_rows 4 2 0)) = int (card (round_robin_rows 4 2 0))
     \<and> fst (domain 4 2 0) = int (card (lower_rank_rows 4 2 0))
     \<and> set (owned_rows 4 2 0) \<noteq> round_robin_rows 4 2 0"
  using owned_rows_round_robin [of 2 0 4] by simp

text \<open>
  The claim as it is written fails: with four rows and two workers, rank 0 iterates
  over rows 0 and 1, and row 1 is not in the round-robin set \<open>{0, 2}\<close>.
\<close>

theorem owned_rows_round_robin_counterexample:
  "set (owned_rows 4 2 0) \<noteq> round_robin_rows 4 2 0"
proof
  assume "set (owned_rows 4 2 0) = round_robin_rows 4 2 0"
  moreover have "(1::int) \<in> set (owned_rows 4 2 0)" by code_simp
  ultimately have "(1::int) \<in> round_robin_rows 4 2 0" by simp
  then show False by (simp add: round_robin_rows_def)
qed

subsection \<open>The process that accelerates the flow\<close>

lemma top_block_start:
  assumes "1 \<le> w" "0 \<le> n"
  shows "set (owned_rows n w (w - 1)) = {n - n div w ..< n}"
proof -
  have m: "n mod w \<le> w - 1" using assms pos_mod_bound [of w n] by simp
  have "block_bound n w (w - 1) = (n div w) * w + n mod w - n div w"
    using m by (simp add: block_bound_def algebra_simps)
  then have "block_bound n w (w - 1) = n - n div w" by simp
  moreover have "block_bound n w (w - 1 + 1) = n" using assms by (simp add: block_bound_top)
  ultimately show ?thesis using assms by (simp add: set_owned_rows)
qed

lemma two_le_div_iff:
  fixes n w :: int
  assumes "0 < w"
  shows "2 \<le> n div w \<longleftrightarrow> 2 * w \<le> n"
proof
  assume "2 \<le> n div w"
  then have "w * 2 \<le> w * (n div w)" using assms by (simp add: mult_left_mono)
  moreover have "w * (n div w) \<le> n"
    using mult_div_mod_eq [of w n] pos_mod_sign [OF assms, of n] by linarith
  ultimately show "2 * w \<le> n" by simp
next
  assume "2 * w \<le> n"
  then have "(2 * w) div w \<le> n div w" using assms by (rule zdiv_mono1)
  then show "2 \<le> n div w" using assms by simp
qed

text \<open>
  The last rank owns the row \<open>n - 2\<close> that \<^verbatim>\<open>accelerate_flow\<close> modifies exactly when
  there are at least twice as many rows as processes.
\<close>

lemma accelerate_rank_owner_iff:
  assumes "1 \<le> w" "2 \<le> n"
  shows "n - 2 \<in> set (owned_rows n w (w - 1)) \<longleftrightarrow> 2 * w \<le> n"
proof -
  have "n - 2 \<in> set (owned_rows n w (w - 1)) \<longleftrightarrow> 2 \<le> n div w"
    using assms by (auto simp: top_block_start)
  then show ?thesis using assms by (simp add: two_le_div_iff)
qed

text \<open>
  Claim C4 at three rows and two processes. The driver runs \<^verbatim>\<open>accelerate_flow\<close> on
  rank 1, which changes row \<open>ny - 2 = 1\<close> of that process's grid (direction 1 goes from
  2 to 3); rank 1 owns row 2 only, and row 1 belongs to rank 0, which does not run
  \<^verbatim>\<open>accelerate_flow\<close>. The halo exchange that follows receives into row 1 on rank 1:
  with the rows 0 and 1 that rank 0 sends, direction 1 of row 1 is 2 again.
\<close>

theorem accelerate_rank_not_owner:
  "accelerate_step three_rows 1 2 (uniform_cells 2) no_obstacles
      = accelerate_flow three_rows (uniform_cells 2) no_obstacles
   \<and> accelerate_flow three_rows (uniform_cells 2) no_obstacles
        (0 + (ny three_rows - 2) * nx three_rows) 1 = 3
   \<and> ny three_rows - 2 \<notin> set (owned_rows (ny three_rows) 2 1)
   \<and> ny three_rows - 2 \<in> set (owned_rows (ny three_rows) 2 0)
   \<and> accelerate_step three_rows 0 2 (uniform_cells 2) no_obstacles = uniform_cells 2
   \<and> map sr_receiveRow (main_halo_calls (ny three_rows) 2 1) = [0, ny three_rows - 2]
   \<and> fst (halo_exchange (accelerate_step three_rows 1 2 (uniform_cells 2) no_obstacles)
          zero_buffer
          [pack_row (uniform_cells 2) 0 (nx three_rows) zero_buffer,
           pack_row (uniform_cells 2) 1 (nx three_rows) zero_buffer]
          (nx three_rows) (ny three_rows)
          (fst (domain (ny three_rows) 2 1)) (snd (domain (ny three_rows) 2 1)) 1 2)
        (0 + (ny three_rows - 2) * nx three_rows) 1 = 2"
proof -
  have o: "owned_rows 3 2 1 = [2]" "owned_rows 3 2 0 = [0, 1]" by code_simp+
  have h: "map sr_receiveRow (main_halo_calls 3 2 1) = [0, 1]" by code_simp
  have d: "domain 3 2 1 = (2, 1)" by code_simp
  have a: "accelerate_step three_rows 1 2 (uniform_cells 2) no_obstacles
      = accelerate_flow three_rows (uniform_cells 2) no_obstacles
   \<and> accelerate_flow three_rows (uniform_cells 2) no_obstacles
        (0 + (ny three_rows - 2) * nx three_rows) 1 = 3
   \<and> ny three_rows - 2 \<notin> set (owned_rows (ny three_rows) 2 1)
   \<and> ny three_rows - 2 \<in> set (owned_rows (ny three_rows) 2 0)
   \<and> accelerate_step three_rows 0 2 (uniform_cells 2) no_obstacles = uniform_cells 2
   \<and> map sr_receiveRow (main_halo_calls (ny three_rows) 2 1) = [0, ny three_rows - 2]"
    by (simp add: accelerate_step_def accelerate_flow_def accelerate_cell_def add_to_def
        sub_from_def three_rows_def uniform_cells_def no_obstacles_def upto.simps o h)
  have "fst (halo_exchange (accelerate_step three_rows 1 2 (uniform_cells 2) no_obstacles)
          zero_buffer
          [pack_row (uniform_cells 2) 0 (nx three_rows) zero_buffer,
           pack_row (uniform_cells 2) 1 (nx three_rows) zero_buffer]
          (nx three_rows) (ny three_rows)
          (fst (domain (ny three_rows) 2 1)) (snd (domain (ny three_rows) 2 1)) 1 2)
        (0 + (ny three_rows - 2) * nx three_rows) 1 = 2"
    by (simp add: halo_exchange_def halo_exchange_calls_def SendRecv_def pack_row_def
        unpack_row_def three_rows_def d c_rem_def signed_modulo_int_def upto.simps
        NSPEEDS_def upt_rec accelerate_step_def uniform_cells_def zero_buffer_def)
  with a show ?thesis by simp
qed

subsection \<open>\<^verbatim>\<open>accelerate_flow\<close> cell by cell\<close>

lemma accelerate_cell_at:
  "accelerate_cell params obstacles w1 w2 jj ii cells =
     cells(ii + jj * nx params :=
       (if forcing_applies w1 w2 (obstacles (ii + jj * nx params)) (cells (ii + jj * nx params))
        then forced_cell w1 w2 (cells (ii + jj * nx params))
        else cells (ii + jj * nx params)))"
  by (auto simp: accelerate_cell_def forcing_applies_def forced_cell_def add_to_def sub_from_def
      Let_def fun_eq_iff)

lemma accelerate_fold_at:
  assumes "distinct xs"
  shows "fold (accelerate_cell params obstacles w1 w2 jj) xs cells i =
     (if i - jj * nx params \<in> set xs \<and> forcing_applies w1 w2 (obstacles i) (cells i)
      then forced_cell w1 w2 (cells i) else cells i)"
  using assms
proof (induction xs arbitrary: cells)
  case Nil
  show ?case by simp
next
  case (Cons x xs)
  define cells' where "cells' = accelerate_cell params obstacles w1 w2 jj x cells"
  have d: "distinct xs" and x: "x \<notin> set xs" using Cons.prems by simp_all
  have s: "fold (accelerate_cell params obstacles w1 w2 jj) (x # xs) cells i =
     (if i - jj * nx params \<in> set xs \<and> forcing_applies w1 w2 (obstacles i) (cells' i)
      then forced_cell w1 w2 (cells' i) else cells' i)"
    using Cons.IH [OF d, of cells'] by (simp add: cells'_def)
  have c: "cells' i =
     (if i = x + jj * nx params \<and> forcing_applies w1 w2 (obstacles i) (cells i)
      then forced_cell w1 w2 (cells i) else cells i)"
    by (simp add: cells'_def accelerate_cell_at)
  show ?case
  proof (cases "i = x + jj * nx params")
    case True
    then have "i - jj * nx params = x" by simp
    then show ?thesis using x True unfolding s c by simp
  next
    case False
    then have "i - jj * nx params \<noteq> x" by auto
    then show ?thesis using False unfolding s c by simp
  qed
qed

lemma accelerate_flow_at:
  "accelerate_flow params cells obstacles i =
     (if 0 \<le> i - (ny params - 2) * nx params \<and> i - (ny params - 2) * nx params < nx params
         \<and> forcing_applies (density params * accel params / 9)
              (density params * accel params / 36) (obstacles i) (cells i)
      then forced_cell (density params * accel params / 9)
             (density params * accel params / 36) (cells i)
      else cells i)"
  by (simp add: accelerate_flow_def Let_def accelerate_fold_at)

text \<open>
  Claim C5, as the code has it. After \<^verbatim>\<open>accelerate_flow\<close>, a cell of row \<open>ny - 2\<close>
  has had the forcing applied exactly when it is not an obstacle and each of the three
  components 3, 6 and 7 stays strictly positive after the subtraction of its weight
  (\<open>w1 = density * accel / 9\<close> for 3, \<open>w2 = density * accel / 36\<close> for 6 and 7); the
  forcing adds \<open>w1\<close> to direction 1 and \<open>w2\<close> to 5 and 8 and subtracts \<open>w1\<close> from 3
  and \<open>w2\<close> from 6 and 7. Otherwise the cell is as before.
\<close>

theorem accelerate_flow_forcing:
  assumes "0 \<le> ii" "ii < nx params"
  shows "accelerate_flow params cells obstacles (ii + (ny params - 2) * nx params) =
     (if obstacles (ii + (ny params - 2) * nx params) = 0
         \<and> 0 < cells (ii + (ny params - 2) * nx params) 3 - density params * accel params / 9
         \<and> 0 < cells (ii + (ny params - 2) * nx params) 6 - density params * accel params / 36
         \<and> 0 < cells (ii + (ny params - 2) * nx params) 7 - density params * accel params / 36
      then forced_cell (density params * accel params / 9) (density params * accel params / 36)
             (cells (ii + (ny params - 2) * nx params))
      else cells (ii + (ny params - 2) * nx params))"
  using assms by (simp add: accelerate_flow_at forcing_applies_def)

theorem accelerate_flow_forcing_witness:
  "accelerate_flow three_rows (uniform_cells 2) no_obstacles 1
      = forced_cell 1 (1 / 4) (uniform_cells 2 1)
   \<and> accelerate_flow three_rows (uniform_cells 1) no_obstacles 1 = uniform_cells 1 1
   \<and> accelerate_flow three_rows (uniform_cells 2) all_obstacles 1 = uniform_cells 2 1"
  using accelerate_flow_forcing [of 0 three_rows "uniform_cells 2" no_obstacles]
    accelerate_flow_forcing [of 0 three_rows "uniform_cells 1" no_obstacles]
    accelerate_flow_forcing [of 0 three_rows "uniform_cells 2" all_obstacles]
  by (simp add: three_rows_def uniform_cells_def no_obstacles_def all_obstacles_def)

text \<open>
  The claim as it is written lets the forcing apply when a component becomes exactly
  zero. With \<open>w1 = 1\<close> and a cell whose component 3 is 1, the subtraction gives 0,
  which is not negative, and yet \<^verbatim>\<open>accelerate_flow\<close> leaves the cell as it is.
\<close>

theorem accelerate_flow_forcing_counterexample:
  "\<not> (no_obstacles 1 = 0
        \<and> 0 \<le> uniform_cells 1 1 3 - density three_rows * accel three_rows / 9
        \<and> 0 \<le> uniform_cells 1 1 6 - density three_rows * accel three_rows / 36
        \<and> 0 \<le> uniform_cells 1 1 7 - density three_rows * accel three_rows / 36
      \<longrightarrow> accelerate_flow three_rows (uniform_cells 1) no_obstacles
            (0 + (ny three_rows - 2) * nx three_rows)
          = forced_cell (density three_rows * accel three_rows / 9)
              (density three_rows * accel three_rows / 36) (uniform_cells 1 1))"
proof -
  have "accelerate_flow three_rows (uniform_cells 1) no_obstacles 1 1 = 1"
    by (simp add: accelerate_flow_def accelerate_cell_def three_rows_def upto.simps
        uniform_cells_def no_obstacles_def)
  moreover have "forced_cell 1 (1 / 4) (uniform_cells 1 1) 1 = 2"
    by (simp add: forced_cell_def uniform_cells_def)
  ultimately have "accelerate_flow three_rows (uniform_cells 1) no_obstacles 1 1
      \<noteq> forced_cell 1 (1 / 4) (uniform_cells 1 1) 1"
    by simp
  then have "accelerate_flow three_rows (uniform_cells 1) no_obstacles 1
      \<noteq> forced_cell 1 (1 / 4) (uniform_cells 1 1)"
    by auto
  then show ?thesis
    by (simp add: three_rows_def uniform_cells_def no_obstacles_def)
qed

subsection \<open>What \<^verbatim>\<open>accelerate_flow\<close> leaves unchanged\<close>

lemma local_density_of_eq:
  "local_density_of c = c 0 + c 1 + c 2 + c 3 + c 4 + c 5 + c 6 + c 7 + c 8"
  by (simp add: local_density_of_def NSPEEDS_def upt_rec eval_nat_numeral)

lemma sum_NSPEEDS:
  "(\<Sum>kk<NSPEEDS. c kk) = c 0 + c 1 + c 2 + c 3 + c 4 + c 5 + c 6 + c 7 + (c 8 :: real)"
proof -
  have "{..<NSPEEDS} = {0, 1, 2, 3, 4, 5, 6, 7, 8}"
    by (auto simp: NSPEEDS_def)
  then show ?thesis by simp
qed

lemma row_index_unique:
  fixes w :: int
  assumes "0 \<le> a" "a < w" "0 \<le> b" "b < w" "a + r * w = b + s * w"
  shows "r = s"
proof -
  have "(a + r * w) div w = r" "(b + s * w) div w = s" using assms(1-4) by simp_all
  then show ?thesis using assms(5) by metis
qed

text \<open>
  Claim C10. \<^verbatim>\<open>accelerate_flow\<close> leaves every cell outside row \<open>ny - 2\<close> as it is
  (every index that is not \<open>ii + (ny - 2) * nx\<close> for a column \<open>ii\<close>, so every cell
  \<open>(col, row)\<close> of another row), it leaves directions 0, 2 and 4 of every cell as they
  are, and the sum of the nine components of every cell is the same before and after.
\<close>

theorem accelerate_flow_frame:
  "(\<forall>i. (\<forall>ii. 0 \<le> ii \<and> ii < nx params \<longrightarrow> i \<noteq> ii + (ny params - 2) * nx params)
        \<longrightarrow> accelerate_flow params cells obstacles i = cells i)
   \<and> (\<forall>col row. 0 \<le> col \<and> col < nx params \<and> row \<noteq> ny params - 2
        \<longrightarrow> accelerate_flow params cells obstacles (col + row * nx params)
            = cells (col + row * nx params))
   \<and> (\<forall>i. accelerate_flow params cells obstacles i 0 = cells i 0
          \<and> accelerate_flow params cells obstacles i 2 = cells i 2
          \<and> accelerate_flow params cells obstacles i 4 = cells i 4)
   \<and> (\<forall>i. (\<Sum>kk<NSPEEDS. accelerate_flow params cells obstacles i kk)
          = (\<Sum>kk<NSPEEDS. cells i kk))"
proof (intro conjI allI impI)
  fix i
  assume a: "\<forall>ii. 0 \<le> ii \<and> ii < nx params \<longrightarrow> i \<noteq> ii + (ny params - 2) * nx params"
  have "\<not> (0 \<le> i - (ny params - 2) * nx params \<and> i - (ny params - 2) * nx params < nx params)"
    using a [rule_format, of "i - (ny params - 2) * nx params"] by auto
  then show "accelerate_flow params cells obstacles i = cells i"
    by (auto simp: accelerate_flow_at)
next
  fix col row
  assume a: "0 \<le> col \<and> col < nx params \<and> row \<noteq> ny params - 2"
  define d where "d = col + row * nx params - (ny params - 2) * nx params"
  have "\<not> (0 \<le> d \<and> d < nx params)"
  proof
    assume b: "0 \<le> d \<and> d < nx params"
    have "col + row * nx params = d + (ny params - 2) * nx params" by (simp add: d_def)
    then have "row = ny params - 2"
      using a b row_index_unique [of col "nx params" d row "ny params - 2"] by blast
    then show False using a by simp
  qed
  then show "accelerate_flow params cells obstacles (col + row * nx params)
            = cells (col + row * nx params)"
    unfolding d_def by (auto simp: accelerate_flow_at)
next
  fix i
  show "accelerate_flow params cells obstacles i 0 = cells i 0"
    "accelerate_flow params cells obstacles i 2 = cells i 2"
    "accelerate_flow params cells obstacles i 4 = cells i 4"
    by (simp_all add: accelerate_flow_at forced_cell_def)
next
  fix i
  show "(\<Sum>kk<NSPEEDS. accelerate_flow params cells obstacles i kk) = (\<Sum>kk<NSPEEDS. cells i kk)"
    by (simp add: sum_NSPEEDS accelerate_flow_at forced_cell_def)
qed

theorem accelerate_flow_frame_witness:
  "accelerate_flow three_rows (uniform_cells 2) no_obstacles 2 = uniform_cells 2 2
   \<and> accelerate_flow three_rows (uniform_cells 2) no_obstacles (0 + 0 * nx three_rows)
       = uniform_cells 2 (0 + 0 * nx three_rows)
   \<and> accelerate_flow three_rows (uniform_cells 2) no_obstacles 1 4 = 2
   \<and> (\<Sum>kk<NSPEEDS. accelerate_flow three_rows (uniform_cells 2) no_obstacles 1 kk) = 18"
proof -
  note f = accelerate_flow_frame [of three_rows "uniform_cells 2" no_obstacles]
  have "\<forall>ii. 0 \<le> ii \<and> ii < nx three_rows \<longrightarrow> 2 \<noteq> ii + (ny three_rows - 2) * nx three_rows"
    by (simp add: three_rows_def)
  then have "accelerate_flow three_rows (uniform_cells 2) no_obstacles 2 = uniform_cells 2 2"
    using f [THEN conjunct1, rule_format, of 2] by blast
  moreover have "accelerate_flow three_rows (uniform_cells 2) no_obstacles (0 + 0 * nx three_rows)
       = uniform_cells 2 (0 + 0 * nx three_rows)"
    using f [THEN conjunct2, THEN conjunct1, rule_format, of 0 0]
    by (simp add: three_rows_def)
  moreover have "accelerate_flow three_rows (uniform_cells 2) no_obstacles 1 4 = 2"
    using f [THEN conjunct2, THEN conjunct2, THEN conjunct1, rule_format, of 1]
    by (simp add: uniform_cells_def)
  moreover have
    "(\<Sum>kk<NSPEEDS. accelerate_flow three_rows (uniform_cells 2) no_obstacles 1 kk) = 18"
    using f [THEN conjunct2, THEN conjunct2, THEN conjunct2, rule_format, of 1]
    by (simp add: uniform_cells_def NSPEEDS_def)
  ultimately show ?thesis by simp
qed

subsection \<open>Bounce-back\<close>

text \<open>
  Claim C7. After \<^verbatim>\<open>propagate\<close> and \<^verbatim>\<open>rebound\<close> on an obstacle cell, the
  current grid holds in directions 1 to 8 the scratch values of the opposite directions;
  direction 0 is as before, and \<^verbatim>\<open>collision\<close> on that cell changes nothing, so no
  relaxation is applied. \<^verbatim>\<open>rebound\<close> changes no other cell, and no cell that is
  not an obstacle.
\<close>

theorem rebound_after_propagate:
  assumes "tmp' = propagate ii jj params cells tmp_cells"
    and "cells' = rebound ii jj params cells tmp' obstacles"
  shows "(obstacles (ii + jj * nx params) \<noteq> 0 \<longrightarrow>
            cells' (ii + jj * nx params) 1 = tmp' (ii + jj * nx params) 3
          \<and> cells' (ii + jj * nx params) 2 = tmp' (ii + jj * nx params) 4
          \<and> cells' (ii + jj * nx params) 3 = tmp' (ii + jj * nx params) 1
          \<and> cells' (ii + jj * nx params) 4 = tmp' (ii + jj * nx params) 2
          \<and> cells' (ii + jj * nx params) 5 = tmp' (ii + jj * nx params) 7
          \<and> cells' (ii + jj * nx params) 6 = tmp' (ii + jj * nx params) 8
          \<and> cells' (ii + jj * nx params) 7 = tmp' (ii + jj * nx params) 5
          \<and> cells' (ii + jj * nx params) 8 = tmp' (ii + jj * nx params) 6
          \<and> cells' (ii + jj * nx params) 0 = cells (ii + jj * nx params) 0
          \<and> collision ii jj params cells' tmp' obstacles = Some cells')
       \<and> (\<forall>i. i \<noteq> ii + jj * nx params \<longrightarrow> cells' i = cells i)
       \<and> (\<forall>i. obstacles i = 0 \<longrightarrow> cells' i = cells i)"
  unfolding assms
  by (auto simp: rebound_def collision_def add.commute)

theorem rebound_after_propagate_witness:
  "rebound 0 1 three_rows index_cells
      (propagate 0 1 three_rows index_cells (uniform_cells 0)) all_obstacles 1 1 = 13
   \<and> rebound 0 1 three_rows index_cells
      (propagate 0 1 three_rows index_cells (uniform_cells 0)) all_obstacles 1 5 = 27
   \<and> rebound 0 1 three_rows index_cells
      (propagate 0 1 three_rows index_cells (uniform_cells 0)) all_obstacles 1 0 = 10
   \<and> rebound 0 1 three_rows index_cells
      (propagate 0 1 three_rows index_cells (uniform_cells 0)) all_obstacles 2 = index_cells 2
   \<and> rebound 0 1 three_rows index_cells
      (propagate 0 1 three_rows index_cells (uniform_cells 0)) no_obstacles 1 = index_cells 1"
proof -
  note r = rebound_after_propagate [where ii = 0 and jj = 1 and params = three_rows
      and cells = index_cells and tmp_cells = "uniform_cells 0", OF refl refl]
  have p: "propagate 0 1 three_rows index_cells (uniform_cells 0) 1 3 = 13"
    "propagate 0 1 three_rows index_cells (uniform_cells 0) 1 7 = 27"
    by (simp_all add: propagate_def three_rows_def index_cells_def c_rem_def
        signed_modulo_int_def)
  have a: "all_obstacles (0 + 1 * nx three_rows) \<noteq> 0" by (simp add: all_obstacles_def)
  have "rebound 0 1 three_rows index_cells
      (propagate 0 1 three_rows index_cells (uniform_cells 0)) all_obstacles 1 1 = 13"
    using r [of all_obstacles, THEN conjunct1, rule_format, OF a] p
    by (simp add: three_rows_def)
  moreover have "rebound 0 1 three_rows index_cells
      (propagate 0 1 three_rows index_cells (uniform_cells 0)) all_obstacles 1 5 = 27"
    using r [of all_obstacles, THEN conjunct1, rule_format, OF a] p
    by (simp add: three_rows_def)
  moreover have "rebound 0 1 three_rows index_cells
      (propagate 0 1 three_rows index_cells (uniform_cells 0)) all_obstacles 1 0 = 10"
    using r [of all_obstacles, THEN conjunct1, rule_format, OF a]
    by (simp add: three_rows_def index_cells_def)
  moreover have "rebound 0 1 three_rows index_cells
      (propagate 0 1 three_rows index_cells (uniform_cells 0)) all_obstacles 2 = index_cells 2"
    using r [of all_obstacles, THEN conjunct2, THEN conjunct1, rule_format, of 2]
    by (simp add: three_rows_def)
  moreover have "rebound 0 1 three_rows index_cells
      (propagate 0 1 three_rows index_cells (uniform_cells 0)) no_obstacles 1 = index_cells 1"
    using r [of no_obstacles, THEN conjunct2, THEN conjunct2, rule_format, of 1]
    by (simp add: no_obstacles_def)
  ultimately show ?thesis by simp
qed

subsection \<open>Relaxation\<close>

lemma fold_store_cell:
  "fold (\<lambda>kk c. c(i := (c i)(kk := f kk))) [0..<n] cells =
     cells(i := (\<lambda>kk. if kk < n then f kk else cells i kk))"
proof (induction n)
  case 0
  show ?case by simp
next
  case (Suc n)
  define g where "g = (\<lambda>kk (c :: 'a \<Rightarrow> nat \<Rightarrow> 'b). c(i := (c i)(kk := f kk)))"
  have "fold g [0..<Suc n] cells = g n (fold g [0..<n] cells)" by simp
  also have "\<dots> = g n (cells(i := (\<lambda>kk. if kk < n then f kk else cells i kk)))"
    using Suc by (simp only: g_def)
  also have "\<dots> = cells(i := (\<lambda>kk. if kk < Suc n then f kk else cells i kk))"
    by (auto simp: g_def fun_eq_iff)
  finally show ?case by (simp only: g_def)
qed

lemma nine_cases:
  assumes "kk < NSPEEDS"
  obtains "kk = 0" | "kk = 1" | "kk = 2" | "kk = 3" | "kk = 4" | "kk = 5" | "kk = 6" | "kk = 7"
    | "kk = 8"
  using assms unfolding NSPEEDS_def by linarith

lemma bulk_velocity_eq:
  "bulk_velocity c =
     ((c 1 + c 5 + c 8 - (c 3 + c 6 + c 7)) / local_density_of c,
      (c 2 + c 5 + c 6 - (c 4 + c 7 + c 8)) / local_density_of c)"
  by (simp add: bulk_velocity_def sum_NSPEEDS lattice_dir_def local_density_of_eq)

lemma d_equ_of_equilibrium:
  assumes "kk < NSPEEDS"
  shows "d_equ_of rho u_x u_y kk = equilibrium rho (u_x, u_y) kk"
  using assms
  by (rule nine_cases)
    (simp_all add: d_equ_of_def equilibrium_def lattice_weight_def lattice_dir_def Let_def
      power2_eq_square)

lemma collision_fluid:
  assumes "obstacles (ii + jj * nx params) = 0"
    and "local_density_of (tmp_cells (ii + jj * nx params)) \<noteq> 0"
  shows "collision ii jj params cells tmp_cells obstacles =
     Some (cells(ii + jj * nx params :=
        relaxed_cell (omega params) (cells (ii + jj * nx params))
          (tmp_cells (ii + jj * nx params))))"
proof -
  define i where "i = ii + jj * nx params"
  define t where "t = tmp_cells i"
  define rho where "rho = local_density_of t"
  define u_x where "u_x = (t 1 + t 5 + t 8 - (t 3 + t 6 + t 7)) / rho"
  define u_y where "u_y = (t 2 + t 5 + t 6 - (t 4 + t 7 + t 8)) / rho"
  have rho: "rho \<noteq> 0" using assms(2) by (simp add: rho_def t_def i_def)
  have c: "collision ii jj params cells tmp_cells obstacles =
      Some (cells(i := (\<lambda>kk. if kk < NSPEEDS
                              then t kk + omega params * (d_equ_of rho u_x u_y kk - t kk)
                              else cells i kk)))"
    using assms
    unfolding u_x_def u_y_def rho_def t_def i_def
    by (simp add: collision_def fdiv_def Let_def fold_store_cell cong: if_cong)
  have l: "(\<Sum>kk<NSPEEDS. t kk) = rho"
    by (simp add: sum_NSPEEDS local_density_of_eq rho_def)
  have b: "bulk_velocity t = (u_x, u_y)"
    by (simp add: bulk_velocity_eq u_x_def u_y_def rho_def)
  show ?thesis
    unfolding c relaxed_cell_def
    unfolding i_def [symmetric] t_def [symmetric] l b
    by (auto simp: fun_eq_iff d_equ_of_equilibrium)
qed

text \<open>
  Claim C6. For a cell that is not an obstacle and whose scratch values do not add up to
  zero, \<^verbatim>\<open>collision\<close> stores, for each of the nine directions,
  \<open>scratch + omega * (equilibrium - scratch)\<close> into the current grid, where the
  equilibrium is that of the specification for the density and the bulk velocity of the
  scratch cell. When the scratch values add up to zero the velocity is a quotient by
  zero and the stored values are not finite. An obstacle cell, and every other cell,
  is left as it is.
\<close>

theorem collision_relaxation:
  "(obstacles (ii + jj * nx params) = 0
      \<and> (\<Sum>kk<NSPEEDS. tmp_cells (ii + jj * nx params) kk) \<noteq> 0 \<longrightarrow>
     collision ii jj params cells tmp_cells obstacles =
       Some (cells(ii + jj * nx params :=
         (\<lambda>kk. if kk < NSPEEDS
               then tmp_cells (ii + jj * nx params) kk
                    + omega params
                      * (equilibrium (\<Sum>kk<NSPEEDS. tmp_cells (ii + jj * nx params) kk)
                           (bulk_velocity (tmp_cells (ii + jj * nx params))) kk
                         - tmp_cells (ii + jj * nx params) kk)
               else cells (ii + jj * nx params) kk))))
   \<and> (obstacles (ii + jj * nx params) = 0
      \<and> (\<Sum>kk<NSPEEDS. tmp_cells (ii + jj * nx params) kk) = 0 \<longrightarrow>
     collision ii jj params cells tmp_cells obstacles = None)
   \<and> (obstacles (ii + jj * nx params) \<noteq> 0 \<longrightarrow>
     collision ii jj params cells tmp_cells obstacles = Some cells)"
proof (intro conjI impI)
  assume "obstacles (ii + jj * nx params) = 0
      \<and> (\<Sum>kk<NSPEEDS. tmp_cells (ii + jj * nx params) kk) \<noteq> 0"
  then show "collision ii jj params cells tmp_cells obstacles =
       Some (cells(ii + jj * nx params :=
         (\<lambda>kk. if kk < NSPEEDS
               then tmp_cells (ii + jj * nx params) kk
                    + omega params
                      * (equilibrium (\<Sum>kk<NSPEEDS. tmp_cells (ii + jj * nx params) kk)
                           (bulk_velocity (tmp_cells (ii + jj * nx params))) kk
                         - tmp_cells (ii + jj * nx params) kk)
               else cells (ii + jj * nx params) kk)))"
    using collision_fluid [of obstacles ii jj params tmp_cells cells]
    by (simp add: relaxed_cell_def sum_NSPEEDS local_density_of_eq)
next
  assume "obstacles (ii + jj * nx params) = 0
      \<and> (\<Sum>kk<NSPEEDS. tmp_cells (ii + jj * nx params) kk) = 0"
  then show "collision ii jj params cells tmp_cells obstacles = None"
    by (simp add: collision_def fdiv_def sum_NSPEEDS local_density_of_eq)
next
  assume "obstacles (ii + jj * nx params) \<noteq> 0"
  then show "collision ii jj params cells tmp_cells obstacles = Some cells"
    by (simp add: collision_def)
qed

theorem collision_relaxation_witness:
  "map_option (\<lambda>c. map (c 1) [0, 1, 5]) 
      (collision 0 1 three_rows (uniform_cells 0) (uniform_cells 1) no_obstacles)
     = Some [4, 1, 1 / 4]
   \<and> collision 0 1 three_rows (uniform_cells 0) (uniform_cells 0) no_obstacles = None
   \<and> collision 0 1 three_rows (uniform_cells 0) (uniform_cells 1) all_obstacles
     = Some (uniform_cells 0)"
proof -
  note c = collision_relaxation [of _ 0 1 three_rows "uniform_cells 1" "uniform_cells 0"]
  have s: "(\<Sum>kk<NSPEEDS. uniform_cells 1 (0 + 1 * nx three_rows) kk) = 9"
    "(\<Sum>kk<NSPEEDS. uniform_cells 0 (0 + 1 * nx three_rows) kk) = 0"
    by (simp_all add: uniform_cells_def NSPEEDS_def)
  have b: "bulk_velocity (uniform_cells 1 (0 + 1 * nx three_rows)) = (0, 0)"
    by (simp add: bulk_velocity_eq uniform_cells_def)
  have e: "equilibrium 9 (0, 0) 0 = 4" "equilibrium 9 (0, 0) 1 = 1" "equilibrium 9 (0, 0) 5 = 1 / 4"
    by (simp_all add: equilibrium_def lattice_weight_def lattice_dir_def)
  have "map_option (\<lambda>c. map (c 1) [0, 1, 5]) 
      (collision 0 1 three_rows (uniform_cells 0) (uniform_cells 1) no_obstacles)
     = Some [4, 1, 1 / 4]"
    using c [of no_obstacles, THEN conjunct1] s(1) b e
    by (simp add: no_obstacles_def three_rows_def NSPEEDS_def uniform_cells_def)
  moreover have "collision 0 1 three_rows (uniform_cells 0) (uniform_cells 0) no_obstacles = None"
    using collision_relaxation [of no_obstacles 0 1 three_rows "uniform_cells 0" "uniform_cells 0",
        THEN conjunct2, THEN conjunct1] s(2)
    by (simp add: no_obstacles_def)
  moreover have "collision 0 1 three_rows (uniform_cells 0) (uniform_cells 1) all_obstacles
     = Some (uniform_cells 0)"
    using c [of all_obstacles, THEN conjunct2, THEN conjunct2]
    by (simp add: all_obstacles_def)
  ultimately show ?thesis by simp
qed

subsection \<open>Average velocity\<close>

lemma fold_nested:
  "fold (\<lambda>jj. fold (\<lambda>ii. f ii jj) cols) rows a = fold (\<lambda>(jj, ii). f ii jj) (List.product rows cols) a"
proof (induction rows arbitrary: a)
  case Nil
  show ?case by simp
next
  case (Cons r rows)
  show ?case by (simp add: Cons fold_map comp_def)
qed

lemma cell_velocity_eq:
  "cell_velocity c = (if (\<Sum>kk<NSPEEDS. c kk) = 0 then None else Some (cell_speed c))"
  by (simp add: cell_velocity_def fdiv_def cell_speed_def bulk_velocity_eq sum_NSPEEDS
      local_density_of_eq power2_eq_square Let_def)

lemma av_velocity_loop_fold:
  "av_velocity_loop params cells obstacles domain_start domain_size =
     fold (av_step cells obstacles) (row_range_cells params domain_start domain_size) (0, Some 0)"
  unfolding av_velocity_loop_def row_range_cells_def fold_nested
  by (simp add: fold_map comp_def av_step_def case_prod_unfold)

lemma av_step_None:
  "av_step cells obstacles i (n, None) = (if obstacles i = 0 then n + 1 else n, None)"
  by (simp add: av_step_def)

lemma av_step_Some:
  "av_step cells obstacles i (n, Some u) =
     (if obstacles i = 0
      then (n + 1, if (\<Sum>kk<NSPEEDS. cells i kk) = 0 then None
                   else Some (u + cell_speed (cells i)))
      else (n, Some u))"
  by (simp add: av_step_def cell_velocity_eq)

lemma fold_av_step_None:
  "fold (av_step cells obstacles) is (n, None) =
     (n + int (length (filter (\<lambda>i. obstacles i = 0) is)), None)"
  by (induction "is" arbitrary: n) (simp_all add: av_step_None)

lemma fold_av_step:
  "fold (av_step cells obstacles) is (n, Some u) =
     (n + int (length (filter (\<lambda>i. obstacles i = 0) is)),
      map_option (\<lambda>v. u + v) (velocity_sum cells (filter (\<lambda>i. obstacles i = 0) is)))"
proof (induction "is" arbitrary: n u)
  case Nil
  show ?case by (simp add: velocity_sum_def)
next
  case (Cons i "is")
  show ?case
  proof (cases "obstacles i = 0")
    case False
    then show ?thesis by (simp add: av_step_Some Cons)
  next
    case True
    show ?thesis
    proof (cases "(\<Sum>kk<NSPEEDS. cells i kk) = 0")
      case z: True
      then show ?thesis using True
        by (simp add: av_step_Some fold_av_step_None velocity_sum_def)
    next
      case False
      then show ?thesis using True
        by (simp add: av_step_Some Cons velocity_sum_def)
    qed
  qed
qed

lemma av_velocity_loop_eq:
  "av_velocity_loop params cells obstacles domain_start domain_size =
     (int (length (fluid_cells params obstacles domain_start domain_size)),
      velocity_sum cells (fluid_cells params obstacles domain_start domain_size))"
  by (simp add: av_velocity_loop_fold fold_av_step fluid_cells_def option.map_ident
      cong: option.map_cong)

lemma MPI_Reduce_sum_eq:
  "MPI_Reduce_sum (u, n) others = (sum_options (u # map fst others), n + sum_list (map snd others))"
proof (induction others arbitrary: u n)
  case Nil
  show ?case by (cases u) (simp_all add: MPI_Reduce_sum_def sum_options_def)
next
  case (Cons b others)
  obtain v m where b: "b = (v, m)" by (cases b)
  have "MPI_Reduce_sum (u, n) (b # others)
      = MPI_Reduce_sum (do { a \<leftarrow> u; b \<leftarrow> v; Some (a + b) }, n + m) others"
    by (simp add: MPI_Reduce_sum_def b)
  then show ?case
    by (cases u; cases v) (auto simp: Cons b sum_options_def)
qed

text \<open>
  Claim C9, as the code has it. On every path but that of rank 0 with \<^verbatim>\<open>sync == 1\<close>,
  \<^verbatim>\<open>av_velocity\<close> returns the sum of the speeds of the cells of the row range that
  are not obstacles, divided by their number. On rank 0 with \<^verbatim>\<open>sync == 1\<close> the sums
  and the counts of all processes are added up before the division. In both cases a
  divisor of zero is not guarded: the quotient is not finite, and no error is raised (the
  function has no error result). In particular, on the first path, a range of obstacles
  only gives a result that is not finite.
\<close>

theorem av_velocity_result:
  "(sync \<noteq> 1 \<or> rank \<noteq> 0 \<longrightarrow>
      av_velocity params cells obstacles rank domain_start domain_size sync others =
        velocity_sum cells (fluid_cells params obstacles domain_start domain_size)
          \<bind> (\<lambda>u. fdiv u (real (length (fluid_cells params obstacles domain_start domain_size)))))
   \<and> (sync = 1 \<and> rank = 0 \<longrightarrow>
      av_velocity params cells obstacles rank domain_start domain_size sync others =
        sum_options (velocity_sum cells (fluid_cells params obstacles domain_start domain_size)
                      # map fst others)
          \<bind> (\<lambda>u. fdiv u (real (length (fluid_cells params obstacles domain_start domain_size))
                            + sum_list (map snd others))))
   \<and> ((sync \<noteq> 1 \<or> rank \<noteq> 0)
        \<and> (\<forall>i\<in>set (row_range_cells params domain_start domain_size). obstacles i \<noteq> 0) \<longrightarrow>
      av_velocity params cells obstacles rank domain_start domain_size sync others = None)
   \<and> (sync = 1 \<and> rank = 0
        \<and> real (length (fluid_cells params obstacles domain_start domain_size))
            + sum_list (map snd others) = 0 \<longrightarrow>
      av_velocity params cells obstacles rank domain_start domain_size sync others = None)"
proof -
  define fl where "fl = fluid_cells params obstacles domain_start domain_size"
  have a: "av_velocity params cells obstacles rank domain_start domain_size sync others =
      (if sync = 1 \<and> rank = 0
       then sum_options (velocity_sum cells fl # map fst others)
              \<bind> (\<lambda>u. fdiv u (real (length fl) + sum_list (map snd others)))
       else velocity_sum cells fl \<bind> (\<lambda>u. fdiv u (real (length fl))))"
    by (simp add: av_velocity_def av_velocity_loop_eq MPI_Reduce_sum_eq fl_def)
  have e: "fl = []"
    if "\<forall>i\<in>set (row_range_cells params domain_start domain_size). obstacles i \<noteq> 0"
    using that by (simp add: fl_def fluid_cells_def)
  have n: "x \<bind> (\<lambda>u. fdiv u 0) = None" for x
    by (cases x) (simp_all add: fdiv_def)
  show ?thesis
    unfolding fl_def [symmetric] a
    by (auto simp: e n)
qed

theorem av_velocity_result_witness:
  "av_velocity three_rows (uniform_cells 1) no_obstacles 1 0 3 1 [] = Some 0
   \<and> av_velocity three_rows (uniform_cells 1) no_obstacles 0 0 3 1 [(Some 3, 1)] = Some (3 / 4)
   \<and> av_velocity three_rows (uniform_cells 1) all_obstacles 0 0 3 0 [] = None
   \<and> av_velocity three_rows (uniform_cells 1) all_obstacles 0 0 3 1 [(Some 3, 0)] = None"
proof -
  note a = av_velocity_result [of _ _ three_rows "uniform_cells 1"]
  have r: "row_range_cells three_rows 0 3 = [0, 1, 2]"
    by (simp add: row_range_cells_def three_rows_def upto.simps)
  have f: "fluid_cells three_rows no_obstacles 0 3 = [0, 1, 2]"
    "fluid_cells three_rows all_obstacles 0 3 = []"
    by (simp_all add: fluid_cells_def r no_obstacles_def all_obstacles_def)
  have c: "cell_speed (uniform_cells 1 i) = 0" for i
    by (simp add: cell_speed_def bulk_velocity_eq uniform_cells_def)
  have v: "velocity_sum (uniform_cells 1) [0, 1, 2] = Some 0"
    by (simp add: velocity_sum_def c) (simp add: uniform_cells_def NSPEEDS_def)
  have "av_velocity three_rows (uniform_cells 1) no_obstacles 1 0 3 1 [] = Some 0"
    using a [of 1 1 no_obstacles 0 3 "[]", THEN conjunct1]
    by (simp add: f v fdiv_def)
  moreover have
    "av_velocity three_rows (uniform_cells 1) no_obstacles 0 0 3 1 [(Some 3, 1)] = Some (3 / 4)"
    using a [of 1 0 no_obstacles 0 3 "[(Some 3, 1)]", THEN conjunct2, THEN conjunct1]
    by (simp add: f v fdiv_def sum_options_def)
  moreover have "av_velocity three_rows (uniform_cells 1) all_obstacles 0 0 3 0 [] = None"
    using a [of 0 0 all_obstacles 0 3 "[]", THEN conjunct2, THEN conjunct2, THEN conjunct1]
    by (simp add: r all_obstacles_def)
  moreover have
    "av_velocity three_rows (uniform_cells 1) all_obstacles 0 0 3 1 [(Some 3, 0)] = None"
    using a [of 1 0 all_obstacles 0 3 "[(Some 3, 0)]", THEN conjunct2, THEN conjunct2,
        THEN conjunct2]
    by (simp add: f)
  ultimately show ?thesis by simp
qed

text \<open>
  The claim as it is written fails on rank 0 with \<^verbatim>\<open>sync == 1\<close>, the call that fills
  \<^verbatim>\<open>av_vels\<close>: with a range of obstacles only and another process that reports one
  fluid cell at rest, the result is the finite value 0.
\<close>

theorem av_velocity_counterexample:
  "\<not> (fluid_cells three_rows all_obstacles 0 3 = []
        \<longrightarrow> av_velocity three_rows (uniform_cells 1) all_obstacles 0 0 3 1 [(Some 0, 1)] = None)"
proof -
  have r: "row_range_cells three_rows 0 3 = [0, 1, 2]"
    by (simp add: row_range_cells_def three_rows_def upto.simps)
  have f: "fluid_cells three_rows all_obstacles 0 3 = []"
    by (simp add: fluid_cells_def r all_obstacles_def)
  have "av_velocity three_rows (uniform_cells 1) all_obstacles 0 0 3 1 [(Some 0, 1)] = Some 0"
    by (simp add: av_velocity_def av_velocity_loop_def MPI_Reduce_sum_def fdiv_def
        three_rows_def all_obstacles_def upto.simps)
  then show ?thesis using f by simp
qed

subsection \<open>The loops of the time step\<close>

lemma store_each_Nil: "store_each idx h [] t = t"
  by (simp add: store_each_def)

lemma store_each_Cons:
  "store_each idx h (p # ps) t = store_each idx h ps (t(idx p := h p (t (idx p))))"
  by (simp add: store_each_def)

lemma store_each_other:
  assumes "j \<notin> idx ` set ps"
  shows "store_each idx h ps t j = t j"
  using assms by (induction ps arbitrary: t) (simp_all add: store_each_Nil store_each_Cons)

lemma store_each_at:
  assumes "distinct (map idx ps)" "p \<in> set ps"
  shows "store_each idx h ps t (idx p) = h p (t (idx p))"
  using assms
proof (induction ps arbitrary: t)
  case Nil
  then show ?case by simp
next
  case (Cons q qs)
  define t' where "t' = t(idx q := h q (t (idx q)))"
  have f: "store_each idx h (q # qs) t = store_each idx h qs t'"
    by (simp add: t'_def store_each_Cons)
  show ?case
  proof (cases "p \<in> set qs")
    case True
    then have "idx p \<in> idx ` set qs" by simp
    moreover have "idx q \<notin> idx ` set qs" using Cons.prems(1) by simp
    ultimately have "idx p \<noteq> idx q" by metis
    then have "t' (idx p) = t (idx p)" by (simp add: t'_def)
    moreover have "store_each idx h qs t' (idx p) = h p (t' (idx p))"
      using Cons.prems(1) True by (intro Cons.IH) simp_all
    ultimately show ?thesis unfolding f by simp
  next
    case False
    then have pq: "p = q" using Cons.prems(2) by simp
    have "idx q \<notin> idx ` set qs" using Cons.prems(1) by simp
    then have "store_each idx h qs t' (idx q) = t' (idx q)"
      by (rule store_each_other)
    then show ?thesis unfolding f pq by (simp add: t'_def)
  qed
qed

lemma propagate_store:
  "propagate ii jj params cells tmp_cells =
     tmp_cells(cell_index params (jj, ii) :=
       streamed params cells (jj, ii) (tmp_cells (cell_index params (jj, ii))))"
  by (simp add: propagate_def streamed_def cell_index_def Let_def)

lemma rebound_fluid:
  "obstacles (ii + jj * nx params) = 0 \<Longrightarrow> rebound ii jj params cells tmp_cells obstacles = cells"
  by (simp add: rebound_def add.commute)

lemma propagate_rebound_fold:
  assumes "\<forall>p\<in>set ps. obstacles (cell_index params p) = 0"
  shows "fold (\<lambda>(jj, ii) (cells, tmp_cells).
                 let tmp_cells' = propagate ii jj params cells tmp_cells
                 in (rebound ii jj params cells tmp_cells' obstacles, tmp_cells'))
           ps (cells, tmp_cells) =
         (cells, store_each (cell_index params) (streamed params cells) ps tmp_cells)"
  using assms
proof (induction ps arbitrary: tmp_cells)
  case Nil
  show ?case by (simp add: store_each_Nil)
next
  case (Cons p ps)
  obtain jj ii where p: "p = (jj, ii)" by (cases p)
  define body where "body = (\<lambda>(jj, ii) (cells, tmp_cells).
                 let tmp_cells' = propagate ii jj params cells tmp_cells
                 in (rebound ii jj params cells tmp_cells' obstacles, tmp_cells'))"
  have o: "obstacles (ii + jj * nx params) = 0"
    using Cons.prems by (simp add: p cell_index_def)
  have r: "rebound ii jj params cells t obstacles = cells" for t
    using o by (rule rebound_fluid)
  have b: "body p (cells, tmp_cells) =
      (cells, tmp_cells(cell_index params p :=
                streamed params cells p (tmp_cells (cell_index params p))))"
    by (simp add: body_def p Let_def r propagate_store)
  have "\<forall>p\<in>set ps. obstacles (cell_index params p) = 0" using Cons.prems by simp
  note ih = Cons.IH [OF this, folded body_def]
  have "fold body (p # ps) (cells, tmp_cells) = fold body ps (body p (cells, tmp_cells))"
    by simp
  also have "\<dots> = (cells, store_each (cell_index params) (streamed params cells) (p # ps) tmp_cells)"
    unfolding b ih store_each_Cons ..
  finally show ?case unfolding body_def .
qed

lemma propagate_rebound_rows_fluid:
  assumes "\<forall>p\<in>set (List.product rows [0..nx params - 1]). obstacles (cell_index params p) = 0"
  shows "propagate_rebound_rows params obstacles rows (cells, tmp_cells) =
     (cells, store_each (cell_index params) (streamed params cells)
               (List.product rows [0..nx params - 1]) tmp_cells)"
  unfolding propagate_rebound_rows_def fold_nested
  using assms by (rule propagate_rebound_fold)

lemma collision_no_density:
  assumes "obstacles (ii + jj * nx params) = 0"
    and "local_density_of (tmp_cells (ii + jj * nx params)) = 0"
  shows "collision ii jj params cells tmp_cells obstacles = None"
  using assms by (simp add: collision_def fdiv_def)

lemma collision_fold:
  assumes "\<forall>p\<in>set ps. obstacles (cell_index params p) = 0"
    and "fold (\<lambda>(jj, ii) r. r \<bind> (\<lambda>cells. collision ii jj params cells tmp_cells obstacles))
           ps (Some cells) = Some cells'"
  shows "cells' = store_each (cell_index params)
                    (\<lambda>p old. relaxed_cell (omega params) old (tmp_cells (cell_index params p)))
                    ps cells"
  using assms
proof (induction ps arbitrary: cells)
  case Nil
  then show ?case by (simp add: store_each_Nil)
next
  case (Cons p ps)
  obtain jj ii where p: "p = (jj, ii)" by (cases p)
  define body where "body = (\<lambda>(jj, ii) r.
     r \<bind> (\<lambda>cells. collision ii jj params cells tmp_cells obstacles))"
  have o: "obstacles (ii + jj * nx params) = 0"
    using Cons.prems(1) by (simp add: p cell_index_def)
  have s: "fold body (p # ps) (Some cells)
      = fold body ps (collision ii jj params cells tmp_cells obstacles)"
    by (simp add: body_def p)
  have f: "fold body (p # ps) (Some cells) = Some cells'"
    using Cons.prems(2) by (simp only: body_def)
  have n: "fold body ps None = None"
    unfolding body_def by (induction ps) (simp_all add: case_prod_unfold)
  show ?case
  proof (cases "local_density_of (tmp_cells (ii + jj * nx params)) = 0")
    case True
    then have "collision ii jj params cells tmp_cells obstacles = None"
      using o by (intro collision_no_density)
    then show ?thesis using s f n by simp
  next
    case False
    define c1 where "c1 = cells(ii + jj * nx params :=
        relaxed_cell (omega params) (cells (ii + jj * nx params))
          (tmp_cells (ii + jj * nx params)))"
    have "collision ii jj params cells tmp_cells obstacles = Some c1"
      unfolding c1_def using o False by (rule collision_fluid)
    then have "fold body ps (Some c1) = Some cells'" using s f by simp
    moreover have "\<forall>p\<in>set ps. obstacles (cell_index params p) = 0"
      using Cons.prems(1) by simp
    ultimately have "cells' = store_each (cell_index params)
                    (\<lambda>p old. relaxed_cell (omega params) old (tmp_cells (cell_index params p)))
                    ps c1"
      unfolding body_def by (intro Cons.IH)
    then show ?thesis
      by (simp add: store_each_Cons p cell_index_def c1_def)
  qed
qed

lemma collision_fold_total:
  assumes "\<forall>p\<in>set ps. obstacles (cell_index params p) = 0"
    and "\<forall>p\<in>set ps. local_density_of (tmp_cells (cell_index params p)) \<noteq> 0"
  shows "\<exists>cells'. fold (\<lambda>(jj, ii) r. r \<bind> (\<lambda>cells. collision ii jj params cells tmp_cells obstacles))
           ps (Some cells) = Some cells'"
  using assms
proof (induction ps arbitrary: cells)
  case Nil
  show ?case by simp
next
  case (Cons p ps)
  obtain jj ii where p: "p = (jj, ii)" by (cases p)
  have "collision ii jj params cells tmp_cells obstacles =
     Some (cells(ii + jj * nx params :=
        relaxed_cell (omega params) (cells (ii + jj * nx params))
          (tmp_cells (ii + jj * nx params))))"
    using Cons.prems by (intro collision_fluid) (simp_all add: p cell_index_def)
  moreover have "\<exists>cells'. fold (\<lambda>(jj, ii) r. r \<bind> (\<lambda>cells. collision ii jj params cells tmp_cells obstacles))
           ps (Some c) = Some cells'" for c
    using Cons.prems by (intro Cons.IH) simp_all
  ultimately show ?case by (simp add: p)
qed

lemma fold_add_speeds:
  "fold (\<lambda>kk total. total + g kk) [0..<n] (a::real) = a + (\<Sum>kk<n. g kk)"
  by (induction n) simp_all

lemma fold_add_cells:
  "fold (\<lambda>p total. fold (\<lambda>kk total. total + g p kk) [0..<n] total) ps (a::real)
     = a + (\<Sum>p\<leftarrow>ps. \<Sum>kk<n. g p kk)"
  by (induction ps arbitrary: a) (simp_all add: fold_add_speeds)

lemma total_density_sum:
  "total_density params cells =
     (\<Sum>p\<leftarrow>List.product [0..ny params - 1] [0..nx params - 1].
        \<Sum>kk<NSPEEDS. cells (cell_index params p) kk)"
proof -
  have "total_density params cells =
      fold (\<lambda>(jj, ii). fold (\<lambda>kk total. total + cells (ii + jj * nx params) kk) [0..<NSPEEDS])
        (List.product [0..ny params - 1] [0..nx params - 1]) 0"
    unfolding total_density_def
    by (rule fold_nested [where f = "\<lambda>ii jj. fold (\<lambda>kk total.
          total + cells (ii + jj * nx params) kk) [0..<NSPEEDS]"])
  also have "\<dots> = fold (\<lambda>p total. fold (\<lambda>kk total. total + cells (cell_index params p) kk)
                          [0..<NSPEEDS] total)
        (List.product [0..ny params - 1] [0..nx params - 1]) 0"
    by (simp add: cell_index_def case_prod_unfold)
  finally show ?thesis by (simp add: fold_add_cells)
qed

lemma equilibrium_sum: "(\<Sum>kk<NSPEEDS. equilibrium rho u kk) = rho"
  by (cases u)
    (simp add: sum_NSPEEDS equilibrium_def lattice_weight_def lattice_dir_def Let_def
      power2_eq_square algebra_simps)

lemma relaxed_cell_sum:
  "(\<Sum>kk<NSPEEDS. relaxed_cell om old t kk) = (\<Sum>kk<NSPEEDS. t kk)"
proof -
  define rho where "rho = (\<Sum>kk<NSPEEDS. t kk)"
  have "(\<Sum>kk<NSPEEDS. relaxed_cell om old t kk)
      = (\<Sum>kk<NSPEEDS. t kk + om * (equilibrium rho (bulk_velocity t) kk - t kk))"
    by (rule sum.cong) (simp_all add: relaxed_cell_def rho_def)
  also have "\<dots> = rho + om * ((\<Sum>kk<NSPEEDS. equilibrium rho (bulk_velocity t) kk) - rho)"
    by (simp add: sum.distrib sum_distrib_left [symmetric] sum_subtractf rho_def)
  also have "\<dots> = rho" by (simp add: equilibrium_sum)
  finally show ?thesis by (simp add: rho_def)
qed

subsection \<open>Streaming on the torus\<close>

lemma east_eq: "0 \<le> i \<Longrightarrow> i \<le> n - 1 \<Longrightarrow> east n i = (if i = n - 1 then 0 else i + 1)"
  by (auto simp: east_def c_rem_nonneg)

lemma east_bij: "bij_betw (east n) {0..n - 1} {0..n - 1}"
  by (rule bij_betw_byWitness [where f' = "west n"]) (auto simp: east_eq west_def)

lemma west_bij: "bij_betw (west n) {0..n - 1} {0..n - 1}"
  by (rule bij_betw_byWitness [where f' = "east n"]) (auto simp: east_eq west_def)

lemma id_bij: "bij_betw (\<lambda>i. i) {0..n - 1} {0..(n::int) - 1}"
  by (simp add: bij_betw_def)

lemma torus_sum:
  assumes "bij_betw bx {0..w - 1} {0..w - 1}" "bij_betw by {0..h - 1} {0..h - 1}"
  shows "(\<Sum>(jj, ii)\<in>{0..h - 1} \<times> {0..w - 1}. g (bx ii) (by jj) :: real)
       = (\<Sum>(jj, ii)\<in>{0..h - 1} \<times> {0..w - 1}. g ii jj)"
proof -
  have "bij_betw (map_prod by bx) ({0..h - 1} \<times> {0..w - 1}) ({0..h - 1} \<times> {0..w - 1})"
    using assms(2,1) by (rule bij_betw_map_prod)
  then have "(\<Sum>p\<in>{0..h - 1} \<times> {0..w - 1}. (\<lambda>(jj, ii). g ii jj) (map_prod by bx p))
      = (\<Sum>p\<in>{0..h - 1} \<times> {0..w - 1}. (\<lambda>(jj, ii). g ii jj) p)"
    by (rule sum.reindex_bij_betw)
  then show ?thesis by (simp add: case_prod_unfold)
qed

lemma streamed_sum:
  "(\<Sum>kk<NSPEEDS. streamed params cells (jj, ii) old kk) =
     cells (ii + jj * nx params) 0
     + cells (west (nx params) ii + jj * nx params) 1
     + cells (ii + west (ny params) jj * nx params) 2
     + cells (east (nx params) ii + jj * nx params) 3
     + cells (ii + east (ny params) jj * nx params) 4
     + cells (west (nx params) ii + west (ny params) jj * nx params) 5
     + cells (east (nx params) ii + west (ny params) jj * nx params) 6
     + cells (east (nx params) ii + east (ny params) jj * nx params) 7
     + cells (west (nx params) ii + east (ny params) jj * nx params) 8"
  by (simp add: sum_NSPEEDS streamed_def propagate_def Let_def east_def west_def)

lemma grid_streamed_sum:
  "(\<Sum>p\<in>{0..ny params - 1} \<times> {0..nx params - 1}.
       \<Sum>kk<NSPEEDS. streamed params cells p (old p) kk)
   = (\<Sum>p\<in>{0..ny params - 1} \<times> {0..nx params - 1}.
       \<Sum>kk<NSPEEDS. cells (cell_index params p) kk)"
proof -
  define S where "S = {0..ny params - 1} \<times> {0..nx params - 1}"
  define g where "g = (\<lambda>kk ii jj. cells (ii + jj * nx params) kk)"
  note e = east_bij [of "nx params"] east_bij [of "ny params"]
  note w = west_bij [of "nx params"] west_bij [of "ny params"]
  note i = id_bij [of "nx params"] id_bij [of "ny params"]
  have t: "(\<Sum>(jj, ii)\<in>S. g kk (bx ii) (by jj)) = (\<Sum>(jj, ii)\<in>S. g kk ii jj)"
    if "bij_betw bx {0..nx params - 1} {0..nx params - 1}"
      "bij_betw by {0..ny params - 1} {0..ny params - 1}" for kk bx "by"
    unfolding S_def using that by (rule torus_sum)
  have "(\<Sum>p\<in>S. \<Sum>kk<NSPEEDS. streamed params cells p (old p) kk)
      = (\<Sum>(jj, ii)\<in>S. g 0 ii jj + g 1 (west (nx params) ii) jj + g 2 ii (west (ny params) jj)
          + g 3 (east (nx params) ii) jj + g 4 ii (east (ny params) jj)
          + g 5 (west (nx params) ii) (west (ny params) jj)
          + g 6 (east (nx params) ii) (west (ny params) jj)
          + g 7 (east (nx params) ii) (east (ny params) jj)
          + g 8 (west (nx params) ii) (east (ny params) jj))"
    by (rule sum.cong) (auto simp: streamed_sum g_def)
  also have "\<dots> = (\<Sum>(jj, ii)\<in>S. g 0 ii jj)
      + (\<Sum>(jj, ii)\<in>S. g 1 (west (nx params) ii) jj)
      + (\<Sum>(jj, ii)\<in>S. g 2 ii (west (ny params) jj))
      + (\<Sum>(jj, ii)\<in>S. g 3 (east (nx params) ii) jj)
      + (\<Sum>(jj, ii)\<in>S. g 4 ii (east (ny params) jj))
      + (\<Sum>(jj, ii)\<in>S. g 5 (west (nx params) ii) (west (ny params) jj))
      + (\<Sum>(jj, ii)\<in>S. g 6 (east (nx params) ii) (west (ny params) jj))
      + (\<Sum>(jj, ii)\<in>S. g 7 (east (nx params) ii) (east (ny params) jj))
      + (\<Sum>(jj, ii)\<in>S. g 8 (west (nx params) ii) (east (ny params) jj))"
    by (simp add: case_prod_unfold sum.distrib)
  also have "\<dots> = (\<Sum>(jj, ii)\<in>S. g 0 ii jj) + (\<Sum>(jj, ii)\<in>S. g 1 ii jj)
      + (\<Sum>(jj, ii)\<in>S. g 2 ii jj) + (\<Sum>(jj, ii)\<in>S. g 3 ii jj) + (\<Sum>(jj, ii)\<in>S. g 4 ii jj)
      + (\<Sum>(jj, ii)\<in>S. g 5 ii jj) + (\<Sum>(jj, ii)\<in>S. g 6 ii jj) + (\<Sum>(jj, ii)\<in>S. g 7 ii jj)
      + (\<Sum>(jj, ii)\<in>S. g 8 ii jj)"
    using t [OF w(1) i(2), of 1] t [OF i(1) w(2), of 2] t [OF e(1) i(2), of 3]
      t [OF i(1) e(2), of 4] t [OF w(1) w(2), of 5] t [OF e(1) w(2), of 6]
      t [OF e(1) e(2), of 7] t [OF w(1) e(2), of 8]
    by simp
  also have "\<dots> = (\<Sum>(jj, ii)\<in>S. g 0 ii jj + g 1 ii jj + g 2 ii jj + g 3 ii jj + g 4 ii jj
      + g 5 ii jj + g 6 ii jj + g 7 ii jj + g 8 ii jj)"
    by (simp add: case_prod_unfold sum.distrib)
  also have "\<dots> = (\<Sum>p\<in>S. \<Sum>kk<NSPEEDS. cells (cell_index params p) kk)"
    by (rule sum.cong) (auto simp: sum_NSPEEDS g_def cell_index_def)
  finally show ?thesis unfolding S_def .
qed

lemma cell_index_inj:
  "inj_on (cell_index params) (A \<times> {0..nx params - 1})"
proof (rule inj_onI)
  fix p q
  assume p: "p \<in> A \<times> {0..nx params - 1}" and q: "q \<in> A \<times> {0..nx params - 1}"
    and e: "cell_index params p = cell_index params q"
  obtain jj ii where pp: "p = (jj, ii)" by (cases p)
  obtain jj' ii' where qq: "q = (jj', ii')" by (cases q)
  have b: "0 \<le> ii" "ii < nx params" "0 \<le> ii'" "ii' < nx params"
    using p q by (simp_all add: pp qq)
  have e': "ii + jj * nx params = ii' + jj' * nx params"
    using e by (simp add: pp qq cell_index_def)
  have "jj = jj'" using b e' by (rule row_index_unique)
  then show "p = q" using e' by (simp add: pp qq)
qed

lemma grid_cells_distinct:
  "distinct (List.product [a..b] [0..nx params - 1])"
  "distinct (map (cell_index params) (List.product [a..b] [0..nx params - 1]))"
proof -
  show d: "distinct (List.product [a..b] [0..nx params - 1])"
    by (simp add: distinct_product)
  have "inj_on (cell_index params) (set (List.product [a..b] [0..nx params - 1]))"
    using cell_index_inj [of params "{a..b}"] by simp
  then show "distinct (map (cell_index params) (List.product [a..b] [0..nx params - 1]))"
    using d by (simp add: distinct_map)
qed

subsection \<open>Mass conservation\<close>

lemma stream_and_collide_Some:
  assumes o: "\<forall>p\<in>set (List.product [0..ny params - 1] [0..nx params - 1]).
      obstacles (cell_index params p) = 0"
    and s: "stream_and_collide params obstacles 0 (ny params) (cells, tmp_cells)
      = Some (cells', tmp_cells')"
  shows "total_density params cells' = total_density params cells"
proof -
  define ps where "ps = List.product [0..ny params - 1] [0..nx params - 1]"
  define T where "T = store_each (cell_index params) (streamed params cells) ps tmp_cells"
  have d: "distinct ps" "distinct (map (cell_index params) ps)"
    unfolding ps_def by (rule grid_cells_distinct)+
  have pr: "propagate_rebound_rows params obstacles [0..ny params - 1] (cells, tmp_cells)
      = (cells, T)"
    unfolding T_def ps_def using o by (rule propagate_rebound_rows_fluid)
  have "collision_rows params obstacles T [0..ny params - 1] (Some cells) = Some cells'"
    using s by (auto simp: stream_and_collide_def pr)
  then have "fold (\<lambda>(jj, ii) r. r \<bind> (\<lambda>cells. collision ii jj params cells T obstacles))
      ps (Some cells) = Some cells'"
    unfolding collision_rows_def ps_def
    by (simp only: fold_nested [where f = "\<lambda>ii jj r.
          r \<bind> (\<lambda>cells. collision ii jj params cells T obstacles)"])
  then have c: "cells' = store_each (cell_index params)
      (\<lambda>p old. relaxed_cell (omega params) old (T (cell_index params p))) ps cells"
    using o unfolding ps_def [symmetric] by (intro collision_fold)
  have "(\<Sum>kk<NSPEEDS. cells' (cell_index params p) kk)
      = (\<Sum>kk<NSPEEDS. streamed params cells p (tmp_cells (cell_index params p)) kk)"
    if "p \<in> set ps" for p
  proof -
    have "cells' (cell_index params p)
        = relaxed_cell (omega params) (cells (cell_index params p)) (T (cell_index params p))"
      unfolding c using d(2) that by (rule store_each_at)
    moreover have "T (cell_index params p)
        = streamed params cells p (tmp_cells (cell_index params p))"
      unfolding T_def using d(2) that by (rule store_each_at)
    ultimately show ?thesis by (simp add: relaxed_cell_sum)
  qed
  then have "total_density params cells'
      = (\<Sum>p\<leftarrow>ps. \<Sum>kk<NSPEEDS. streamed params cells p (tmp_cells (cell_index params p)) kk)"
    unfolding total_density_sum ps_def [symmetric]
    by (intro arg_cong [where f = sum_list] map_cong refl)
  also have "\<dots> = (\<Sum>p\<in>set ps.
      \<Sum>kk<NSPEEDS. streamed params cells p (tmp_cells (cell_index params p)) kk)"
    using d(1) by (rule sum_list_distinct_conv_sum_set)
  also have "\<dots> = (\<Sum>p\<in>set ps. \<Sum>kk<NSPEEDS. cells (cell_index params p) kk)"
    unfolding ps_def using grid_streamed_sum [of params cells "\<lambda>p. tmp_cells (cell_index params p)"]
    by simp
  also have "\<dots> = (\<Sum>p\<leftarrow>ps. \<Sum>kk<NSPEEDS. cells (cell_index params p) kk)"
    using d(1) by (rule sum_list_distinct_conv_sum_set [symmetric])
  also have "\<dots> = total_density params cells"
    unfolding total_density_sum ps_def ..
  finally show ?thesis .
qed

lemma stream_and_collide_total:
  assumes o: "\<forall>p\<in>set (List.product [0..ny params - 1] [0..nx params - 1]).
      obstacles (cell_index params p) = 0"
    and n: "\<forall>p\<in>set (List.product [0..ny params - 1] [0..nx params - 1]).
      (\<Sum>kk<NSPEEDS. streamed params cells p (tmp_cells (cell_index params p)) kk) \<noteq> 0"
  shows "\<exists>r. stream_and_collide params obstacles 0 (ny params) (cells, tmp_cells) = Some r"
proof -
  define ps where "ps = List.product [0..ny params - 1] [0..nx params - 1]"
  define T where "T = store_each (cell_index params) (streamed params cells) ps tmp_cells"
  have d: "distinct (map (cell_index params) ps)"
    unfolding ps_def by (rule grid_cells_distinct)
  have pr: "propagate_rebound_rows params obstacles [0..ny params - 1] (cells, tmp_cells)
      = (cells, T)"
    unfolding T_def ps_def using o by (rule propagate_rebound_rows_fluid)
  have "local_density_of (T (cell_index params p)) \<noteq> 0" if "p \<in> set ps" for p
  proof -
    have "T (cell_index params p) = streamed params cells p (tmp_cells (cell_index params p))"
      unfolding T_def using d that by (rule store_each_at)
    moreover have "(\<Sum>kk<NSPEEDS. streamed params cells p (tmp_cells (cell_index params p)) kk)
        \<noteq> 0"
      using n that unfolding ps_def by blast
    ultimately show ?thesis
      by (simp add: local_density_of_eq sum_NSPEEDS)
  qed
  then have "\<exists>cells'. fold (\<lambda>(jj, ii) r.
        r \<bind> (\<lambda>cells. collision ii jj params cells T obstacles)) ps (Some cells) = Some cells'"
    using o unfolding ps_def [symmetric] by (intro collision_fold_total) simp_all
  then obtain cells' where
    "collision_rows params obstacles T [0..ny params - 1] (Some cells) = Some cells'"
    unfolding collision_rows_def ps_def
    by (simp only: fold_nested [where f = "\<lambda>ii jj r.
          r \<bind> (\<lambda>cells. collision ii jj params cells T obstacles)"]) blast
  then show ?thesis by (simp add: stream_and_collide_def pr)
qed

text \<open>
  Claim C8. Take a grid without obstacle cells and one time step without forcing, as
  \<^verbatim>\<open>main\<close> runs it over all rows: \<^verbatim>\<open>propagate\<close> (and \<^verbatim>\<open>rebound\<close>, which does
  nothing here) on every cell, then \<^verbatim>\<open>collision\<close> on every cell. In exact arithmetic
  the sum of all nine components over all cells, as \<^verbatim>\<open>total_density\<close> computes it, is
  the same after the step as before it. The step is defined in exact arithmetic when no
  cell has density zero after \<^verbatim>\<open>propagate\<close>, and then it does return a grid.
\<close>

theorem mass_conservation:
  assumes "\<forall>ii jj. 0 \<le> ii \<and> ii < nx params \<and> 0 \<le> jj \<and> jj < ny params
      \<longrightarrow> obstacles (ii + jj * nx params) = 0"
  shows "(\<forall>cells' tmp_cells'.
            stream_and_collide params obstacles 0 (ny params) (cells, tmp_cells)
              = Some (cells', tmp_cells')
            \<longrightarrow> total_density params cells' = total_density params cells)
       \<and> ((\<forall>ii jj. 0 \<le> ii \<and> ii < nx params \<and> 0 \<le> jj \<and> jj < ny params
              \<longrightarrow> (\<Sum>kk<NSPEEDS. propagate ii jj params cells tmp_cells
                                    (ii + jj * nx params) kk) \<noteq> 0)
            \<longrightarrow> (\<exists>r. stream_and_collide params obstacles 0 (ny params) (cells, tmp_cells)
                       = Some r))"
proof (intro conjI allI impI)
  have o: "\<forall>p\<in>set (List.product [0..ny params - 1] [0..nx params - 1]).
      obstacles (cell_index params p) = 0"
    using assms by (auto simp: cell_index_def)
  {
    fix cells' tmp_cells'
    assume "stream_and_collide params obstacles 0 (ny params) (cells, tmp_cells)
        = Some (cells', tmp_cells')"
    with o show "total_density params cells' = total_density params cells"
      by (rule stream_and_collide_Some)
  }
  {
    assume n: "\<forall>ii jj. 0 \<le> ii \<and> ii < nx params \<and> 0 \<le> jj \<and> jj < ny params
        \<longrightarrow> (\<Sum>kk<NSPEEDS. propagate ii jj params cells tmp_cells
                              (ii + jj * nx params) kk) \<noteq> 0"
    have "\<forall>p\<in>set (List.product [0..ny params - 1] [0..nx params - 1]).
        (\<Sum>kk<NSPEEDS. streamed params cells p (tmp_cells (cell_index params p)) kk) \<noteq> 0"
    proof
      fix p assume p: "p \<in> set (List.product [0..ny params - 1] [0..nx params - 1])"
      obtain jj ii where pp: "p = (jj, ii)" by (cases p)
      have "0 \<le> ii \<and> ii < nx params \<and> 0 \<le> jj \<and> jj < ny params"
        using p by (simp add: pp)
      then have "(\<Sum>kk<NSPEEDS. propagate ii jj params cells tmp_cells
                              (ii + jj * nx params) kk) \<noteq> 0"
        using n by blast
      then show "(\<Sum>kk<NSPEEDS. streamed params cells p
                    (tmp_cells (cell_index params p)) kk) \<noteq> 0"
        by (simp add: pp propagate_store cell_index_def)
    qed
    with o show "\<exists>r. stream_and_collide params obstacles 0 (ny params) (cells, tmp_cells)
        = Some r"
      by (rule stream_and_collide_total)
  }
qed

theorem mass_conservation_witness:
  "\<exists>r. stream_and_collide three_rows no_obstacles 0 3 (index_cells, uniform_cells 0) = Some r
       \<and> total_density three_rows (fst r) = 378"
proof -
  note m = mass_conservation [of three_rows no_obstacles index_cells "uniform_cells 0"]
  have o: "\<forall>ii jj. 0 \<le> ii \<and> ii < nx three_rows \<and> 0 \<le> jj \<and> jj < ny three_rows
      \<longrightarrow> no_obstacles (ii + jj * nx three_rows) = 0"
    by (simp add: no_obstacles_def)
  have j: "jj = 0 \<or> jj = 1 \<or> jj = 2" if "0 \<le> jj" "jj < 3" for jj :: int
    using that by linarith
  have n: "\<forall>ii jj. 0 \<le> ii \<and> ii < nx three_rows \<and> 0 \<le> jj \<and> jj < ny three_rows
      \<longrightarrow> (\<Sum>kk<NSPEEDS. propagate ii jj three_rows index_cells (uniform_cells 0)
                            (ii + jj * nx three_rows) kk) \<noteq> 0"
  proof (intro allI impI)
    fix ii jj :: int
    assume a: "0 \<le> ii \<and> ii < nx three_rows \<and> 0 \<le> jj \<and> jj < ny three_rows"
    then have i: "ii = 0" by (simp add: three_rows_def)
    have "jj = 0 \<or> jj = 1 \<or> jj = 2" using a j by (simp add: three_rows_def)
    then show "(\<Sum>kk<NSPEEDS. propagate ii jj three_rows index_cells (uniform_cells 0)
                            (ii + jj * nx three_rows) kk) \<noteq> 0"
      unfolding i
      by (elim disjE)
        (simp_all add: sum_NSPEEDS propagate_def three_rows_def index_cells_def c_rem_def
          signed_modulo_int_def)
  qed
  obtain r where r: "stream_and_collide three_rows no_obstacles 0 (ny three_rows)
      (index_cells, uniform_cells 0) = Some r"
    using m [OF o, THEN conjunct2] n by blast
  have t: "total_density three_rows index_cells = 378"
    by (simp add: total_density_def three_rows_def index_cells_def upto.simps NSPEEDS_def
        upt_rec)
  have "total_density three_rows (fst r) = total_density three_rows index_cells"
    using m [OF o, THEN conjunct1, rule_format, of "fst r" "snd r"] r by simp
  then show ?thesis using r t by (auto simp: three_rows_def)
qed

end
